theory Spec2Isabelle
  imports Complex_Main
begin

section \<open>Conventions of the embedding\<close>

text \<open>
  The Python sources are embedded function by function. Mutable objects become records
  that are passed in and returned; a raised exception is the \<open>Inl\<close> side of a sum.
  Python floats (clock readings of \<^verbatim>\<open>time.time()\<close>, rates, scores, amounts) are read as
  exact rationals; every clock reading is an explicit argument of the function that
  takes it. Calls into libraries and services outside the repository (the digest, the
  decoding of JSON, the learned model, the log and the store) appear as parameters or
  as explicit outcomes. Metrics, tracing and log texts are left out, except where a
  property speaks of them.
\<close>

datatype py_error =
    Exception string
  | KeyError string
  | TypeError
  | ZeroDivisionError
  | JSONDecodeError
  | OutOfBoundsDatetime
  | DataError

section \<open>Producer: circuit breaker (\<^verbatim>\<open>services/producer-advanced/producer.py\<close>)\<close>

datatype breaker_state = Closed | Open | HalfOpen

record circuit_breaker =
  failure_threshold :: int
  timeout :: int
  failure_count :: int
  last_failure_time :: "rat option"
  state :: breaker_state

text \<open>\<^verbatim>\<open>CircuitBreaker.__init__(failure_threshold=5, timeout=60)\<close>.\<close>

definition CircuitBreaker :: "int \<Rightarrow> int \<Rightarrow> circuit_breaker" where
  "CircuitBreaker thr tmo =
     \<lparr>failure_threshold = thr, timeout = tmo, failure_count = 0,
      last_failure_time = None, state = Closed\<rparr>"

definition CircuitBreaker_default :: circuit_breaker where
  "CircuitBreaker_default = CircuitBreaker 5 60"

text \<open>
  The guard at the head of \<^verbatim>\<open>call\<close>. \<open>now\<close> is the clock reading taken there. With the
  state \<open>Open\<close> and no recorded failure time the subtraction \<^verbatim>\<open>time.time() - None\<close>
  raises \<^verbatim>\<open>TypeError\<close>.
\<close>

definition admit :: "circuit_breaker \<Rightarrow> rat \<Rightarrow> py_error + circuit_breaker" where
  "admit cb now =
     (if state cb = Open then
        (case last_failure_time cb of
           None \<Rightarrow> Inl TypeError
         | Some t \<Rightarrow>
             if now - t > of_int (timeout cb) then Inr (cb\<lparr>state := HalfOpen\<rparr>)
             else Inl (Exception ''Circuit breaker is open''))
      else Inr cb)"

definition on_success :: "circuit_breaker \<Rightarrow> circuit_breaker" where
  "on_success cb =
     (if state cb = HalfOpen then cb\<lparr>state := Closed, failure_count := 0\<rparr> else cb)"

definition on_failure :: "circuit_breaker \<Rightarrow> rat \<Rightarrow> circuit_breaker" where
  "on_failure cb tf =
     (let cb1 = cb\<lparr>failure_count := failure_count cb + 1, last_failure_time := Some tf\<rparr>
      in if failure_count cb1 \<ge> failure_threshold cb1 then cb1\<lparr>state := Open\<rparr> else cb1)"

text \<open>
  \<^verbatim>\<open>CircuitBreaker.call(func, *args)\<close>. The wrapped function acts on the world \<open>w\<close> outside
  the breaker and either returns a value or raises; \<open>now\<close> is the clock reading of the
  guard and \<open>tf\<close> the one of the exception handler. The result is what the call returns
  or raises, the breaker afterwards and the world afterwards.
\<close>

definition call ::
  "circuit_breaker \<Rightarrow> rat \<Rightarrow> rat \<Rightarrow> ('w \<Rightarrow> (py_error + 'a) \<times> 'w) \<Rightarrow> 'w
     \<Rightarrow> (py_error + 'a) \<times> circuit_breaker \<times> 'w" where
  "call cb now tf func w =
     (case admit cb now of
        Inl e \<Rightarrow> (Inl e, cb, w)
      | Inr cb1 \<Rightarrow>
          (case func w of
             (Inr r, w') \<Rightarrow> (Inr r, on_success cb1, w')
           | (Inl e, w') \<Rightarrow> (Inl e, on_failure cb1 tf, w')))"

text \<open>
  A caller that keeps calling whatever the outcome, as the producer's loop does (it
  catches every exception): each entry is the two clock readings and the wrapped
  function of one call.
\<close>

fun call_all ::
  "circuit_breaker \<Rightarrow> (rat \<times> rat \<times> ('w \<Rightarrow> (py_error + 'a) \<times> 'w)) list \<Rightarrow> 'w
     \<Rightarrow> circuit_breaker \<times> 'w" where
  "call_all cb [] w = (cb, w)"
| "call_all cb ((now, tf, func) # cs) w =
     (case call cb now tf func w of (_, cb', w') \<Rightarrow> call_all cb' cs w')"

text \<open>Wrapped functions with a fixed outcome, which count their invocations.\<close>

definition failing :: "py_error \<Rightarrow> nat \<Rightarrow> (py_error + unit) \<times> nat" where
  "failing e n = (Inl e, Suc n)"

definition succeeding :: "nat \<Rightarrow> (py_error + unit) \<times> nat" where
  "succeeding n = (Inr (), Suc n)"

text \<open>A call sequence from a list of outcomes (\<open>True\<close> for success) at given times.\<close>

definition outcome_call ::
  "rat \<times> bool \<Rightarrow> rat \<times> rat \<times> (nat \<Rightarrow> (py_error + unit) \<times> nat)" where
  "outcome_call p =
     (fst p, fst p, if snd p then succeeding else failing (Exception ''boom''))"

definition failures :: "(rat \<times> bool) list \<Rightarrow> nat" where
  "failures os = length (filter (\<lambda>p. \<not> snd p) os)"

text \<open>The default breaker after five failures, the last at time \<open>5\<close>.\<close>

definition tripped_breaker :: circuit_breaker where
  "tripped_breaker =
     \<lparr>failure_threshold = 5, timeout = 60, failure_count = 5,
      last_failure_time = Some 5, state = Open\<rparr>"

section \<open>Producer: adaptive rate limiter (\<^verbatim>\<open>services/producer-advanced/producer.py\<close>)\<close>

record rate_limiter =
  base_rate :: int
  current_rate :: rat
  success_count :: int
  error_count :: int
  last_adjustment :: rat

text \<open>\<^verbatim>\<open>AdaptiveRateLimiter.__init__(base_rate)\<close>, constructed at clock reading \<open>now\<close>.\<close>

definition AdaptiveRateLimiter :: "int \<Rightarrow> rat \<Rightarrow> rate_limiter" where
  "AdaptiveRateLimiter b now =
     \<lparr>base_rate = b, current_rate = of_int b, success_count = 0, error_count = 0,
      last_adjustment = now\<rparr>"

text \<open>\<^verbatim>\<open>_adjust_rate\<close>: the factors are \<open>0.8\<close> and \<open>1.1\<close>, the bounds \<open>0.1\<close> and \<open>2\<close> times the base.\<close>

definition adjust_rate :: "rate_limiter \<Rightarrow> rate_limiter" where
  "adjust_rate rl =
     (let rl1 =
        (if of_int (error_count rl) > of_int (success_count rl) * (1 / 10 :: rat) then
           rl\<lparr>current_rate := max (current_rate rl * (8 / 10)) (of_int (base_rate rl) * (1 / 10))\<rparr>
         else if of_int (error_count rl) < of_int (success_count rl) * (1 / 100 :: rat) then
           rl\<lparr>current_rate := min (current_rate rl * (11 / 10)) (of_int (base_rate rl) * 2)\<rparr>
         else rl)
      in rl1\<lparr>success_count := 0, error_count := 0\<rparr>)"

text \<open>
  \<^verbatim>\<open>should_allow\<close>: \<open>now\<close> is the clock reading and \<open>u\<close> the draw of \<^verbatim>\<open>random.random()\<close>.
  The limiter is updated before the quotient is taken, so a zero base rate raises
  after the update.
\<close>

definition should_allow :: "rate_limiter \<Rightarrow> rat \<Rightarrow> rat \<Rightarrow> (py_error + bool) \<times> rate_limiter" where
  "should_allow rl now u =
     (let rl1 = (if now - last_adjustment rl > 10
                 then (adjust_rate rl)\<lparr>last_adjustment := now\<rparr> else rl)
      in (if base_rate rl1 = 0 then Inl ZeroDivisionError
          else Inr (u < current_rate rl1 / of_int (base_rate rl1)), rl1))"

text \<open>
  The error ratio of an interval, in the terms in which \<^verbatim>\<open>_adjust_rate\<close> compares the
  two rolling counts: errors per success.
\<close>

definition error_ratio :: "rate_limiter \<Rightarrow> rat" where
  "error_ratio rl = of_int (error_count rl) / of_int (success_count rl)"

text \<open>The other reading of an error ratio: the share of the errors in all counted outcomes.\<close>

definition error_share :: "rate_limiter \<Rightarrow> rat" where
  "error_share rl =
     of_int (error_count rl) / (of_int (error_count rl) + of_int (success_count rl))"

section \<open>Events\<close>

text \<open>
  An event is the dictionary decoded from a message. A key that is absent is \<open>None\<close>;
  a key that is present holds a value of the type the data model gives it: identifiers
  and the event type are strings, \<open>timestamp\<close> is an integer (epoch milliseconds) and
  \<open>amount\<close> (the entry \<^verbatim>\<open>properties['amount']\<close>) is a number. The producer writes
  \<^verbatim>\<open>causality_chain\<close> as a list or as \<^verbatim>\<open>null\<close>, so that field is absent (\<open>None\<close>), null
  (\<open>Some None\<close>) or a list of event ids.
\<close>

record event =
  event_id :: "string option"
  user_id :: "string option"
  session_id :: "string option"
  event_type :: "string option"
  timestamp :: "int option"
  amount :: "rat option"
  causality_chain :: "string list option option"

text \<open>\<^verbatim>\<open>e['timestamp']\<close>: subscripting raises \<^verbatim>\<open>KeyError\<close> on an absent key.\<close>

definition subscript_timestamp :: "event \<Rightarrow> py_error + int" where
  "subscript_timestamp e =
     (case timestamp e of None \<Rightarrow> Inl (KeyError ''timestamp'') | Some t \<Rightarrow> Inr t)"

section \<open>Complex event processor (\<^verbatim>\<open>services/processor-advanced/processor.py\<close>)\<close>

text \<open>\<^verbatim>\<open>list.index\<close>: position of the first occurrence, \<open>None\<close> for \<^verbatim>\<open>ValueError\<close>.\<close>

fun index :: "'a list \<Rightarrow> 'a \<Rightarrow> nat option" where
  "index [] x = None"
| "index (y # ys) x = (if y = x then Some 0 else map_option Suc (index ys x))"

record funnel_result =
  funnel_completed :: bool
  conversion_time :: int
  steps :: nat

text \<open>
  \<^verbatim>\<open>_detect_purchase_funnel\<close>. The three positions are taken only after the three
  membership tests, so \<^verbatim>\<open>index\<close> cannot raise there; the purchase's timestamp is read
  before the page view's.
\<close>

definition detect_purchase_funnel :: "event list \<Rightarrow> py_error + funnel_result option" where
  "detect_purchase_funnel events =
     (let event_types = map event_type events in
      if Some ''page_view'' \<in> set event_types \<and> Some ''click'' \<in> set event_types \<and>
         Some ''purchase'' \<in> set event_types then
        (case (index event_types (Some ''page_view''), index event_types (Some ''click''),
               index event_types (Some ''purchase'')) of
           (Some view_idx, Some click_idx, Some purchase_idx) \<Rightarrow>
             if view_idx < click_idx \<and> click_idx < purchase_idx then
               (case subscript_timestamp (events ! purchase_idx) of
                  Inl e \<Rightarrow> Inl e
                | Inr tp \<Rightarrow>
                    (case subscript_timestamp (events ! view_idx) of
                       Inl e \<Rightarrow> Inl e
                     | Inr tv \<Rightarrow>
                         Inr (Some \<lparr>funnel_completed = True, conversion_time = tp - tv,
                                    steps = length (remdups event_types)\<rparr>)))
             else Inr None
         | _ \<Rightarrow> Inr None)
      else Inr None)"

record fraud_result =
  rapid_purchases :: bool
  purchase_count :: nat
  avg_time_between :: rat

text \<open>
  The loop over \<^verbatim>\<open>range(1, len(purchases))\<close>: the difference of each purchase's timestamp
  and its predecessor's, in seconds; the later timestamp is read first.
\<close>

fun time_diffs :: "event list \<Rightarrow> py_error + rat list" where
  "time_diffs (a # b # rest) =
     (case subscript_timestamp b of
        Inl e \<Rightarrow> Inl e
      | Inr tb \<Rightarrow>
          (case subscript_timestamp a of
             Inl e \<Rightarrow> Inl e
           | Inr ta \<Rightarrow>
               (case time_diffs (b # rest) of
                  Inl e \<Rightarrow> Inl e
                | Inr ds \<Rightarrow> Inr (of_int (tb - ta) / 1000 # ds))))"
| "time_diffs _ = Inr []"

text \<open>\<^verbatim>\<open>np.mean\<close> of a list of numbers; it is only applied to a non-empty list.\<close>

definition mean :: "rat list \<Rightarrow> rat" where
  "mean ds = sum_list ds / of_nat (length ds)"

definition detect_fraud_pattern :: "event list \<Rightarrow> py_error + fraud_result option" where
  "detect_fraud_pattern events =
     (if length events < 3 then Inr None
      else
        let purchases = filter (\<lambda>e. event_type e = Some ''purchase'') events in
        if length purchases \<ge> 3 then
          (case time_diffs purchases of
             Inl e \<Rightarrow> Inl e
           | Inr tds \<Rightarrow>
               if list_all (\<lambda>d. d < 60) tds then
                 Inr (Some \<lparr>rapid_purchases = True, purchase_count = length purchases,
                            avg_time_between = mean tds\<rparr>)
               else Inr None)
        else Inr None)"

record churn_result =
  churn_risk :: bool
  engagement_decline :: rat
  recent_activity :: rat

text \<open>\<^verbatim>\<open>e.get('timestamp', 0)\<close>.\<close>

definition timestamp_or_0 :: "event \<Rightarrow> int" where
  "timestamp_or_0 e = (case timestamp e of None \<Rightarrow> 0 | Some t \<Rightarrow> t)"

text \<open>
  \<^verbatim>\<open>_detect_churn_risk\<close>; \<open>now1\<close> and \<open>now2\<close> are the clock readings of the two list
  comprehensions. \<open>older_rate\<close> is positive when there are older events, so the final
  quotient is defined.
\<close>

definition detect_churn_risk :: "rat \<Rightarrow> rat \<Rightarrow> event list \<Rightarrow> churn_result option" where
  "detect_churn_risk now1 now2 events =
     (if events = [] then None
      else
        let recent_events = filter (\<lambda>e. of_int (timestamp_or_0 e) / 1000 > now1 - 86400) events;
            older_events = filter (\<lambda>e. of_int (timestamp_or_0 e) / 1000 \<le> now2 - 86400) events
        in if length older_events > 0 then
             let recent_rate = (of_nat (length recent_events) :: rat) / 1;
                 older_rate = (of_nat (length older_events) :: rat)
                                / max 1 (of_nat (length older_events) / 10)
             in if recent_rate < older_rate * (3 / 10) then
                  Some \<lparr>churn_risk = True,
                        engagement_decline = (older_rate - recent_rate) / older_rate,
                        recent_activity = recent_rate\<rparr>
                else None
           else None)"

text \<open>\<^verbatim>\<open>str\<close> of an optional string inside an f-string: \<^verbatim>\<open>None\<close> prints as \<open>None\<close>.\<close>

definition str_opt :: "string option \<Rightarrow> string" where
  "str_opt x = (case x of None \<Rightarrow> ''None'' | Some s \<Rightarrow> s)"

text \<open>
  The processor's state is \<^verbatim>\<open>pattern_buffer\<close>, a \<^verbatim>\<open>defaultdict(list)\<close>: a key never
  written reads as the empty list.
\<close>

type_synonym pattern_buffers = "string \<Rightarrow> event list"

record detected_patterns =
  purchase_funnel :: "funnel_result option"
  fraud_pattern :: "fraud_result option"
  churn_pattern :: "churn_result option"

definition buffer_key :: "event \<Rightarrow> string" where
  "buffer_key e = str_opt (user_id e) @ '':'' @ str_opt (session_id e)"

text \<open>The buffer of the event's key after appending it and trimming to 30 minutes.\<close>

definition trimmed_buffer :: "pattern_buffers \<Rightarrow> rat \<Rightarrow> event \<Rightarrow> event list" where
  "trimmed_buffer pb now e =
     filter (\<lambda>x. of_int (timestamp_or_0 x) / 1000 > now - 1800) (pb (buffer_key e) @ [e])"

text \<open>
  \<^verbatim>\<open>ComplexEventProcessor.process_event\<close>: the detectors run in the order of the
  \<^verbatim>\<open>patterns\<close> dictionary; an exception of one of them leaves the buffer updated.
\<close>

definition cep_process_event ::
  "pattern_buffers \<Rightarrow> rat \<Rightarrow> rat \<Rightarrow> rat \<Rightarrow> event
     \<Rightarrow> (py_error + detected_patterns) \<times> pattern_buffers" where
  "cep_process_event pb now now1 now2 e =
     (let buf = trimmed_buffer pb now e;
          pb' = pb(buffer_key e := buf)
      in (case detect_purchase_funnel buf of
            Inl err \<Rightarrow> (Inl err, pb')
          | Inr funnel \<Rightarrow>
              (case detect_fraud_pattern buf of
                 Inl err \<Rightarrow> (Inl err, pb')
               | Inr fraud \<Rightarrow>
                   (Inr \<lparr>purchase_funnel = funnel, fraud_pattern = fraud,
                         churn_pattern = detect_churn_risk now1 now2 buf\<rparr>, pb'))))"

text \<open>A detector fires when it returns a result (a non-empty dictionary).\<close>

definition fires :: "py_error + 'a option \<Rightarrow> bool" where
  "fires x = (case x of Inr (Some _) \<Rightarrow> True | _ \<Rightarrow> False)"

text \<open>
  The terms of the pattern descriptions: \<open>first_occurrence xs x i\<close> says that \<open>i\<close> is the
  first position of \<open>x\<close> in \<open>xs\<close>; \<open>purchases_of\<close> are the purchase events of a buffer, in
  buffer order.
\<close>

definition first_occurrence :: "'a list \<Rightarrow> 'a \<Rightarrow> nat \<Rightarrow> bool" where
  "first_occurrence xs x i = (i < length xs \<and> xs ! i = x \<and> (\<forall>j<i. xs ! j \<noteq> x))"

definition purchases_of :: "event list \<Rightarrow> event list" where
  "purchases_of events = filter (\<lambda>e. event_type e = Some ''purchase'') events"

text \<open>
  The differences the fraud detector takes, in milliseconds: the timestamp of each
  event of a list minus the timestamp of the one before it in the list. They are
  signed: an event stamped earlier than its predecessor gives a negative difference.
\<close>

definition arrival_diffs_ms :: "event list \<Rightarrow> int list" where
  "arrival_diffs_ms ps =
     map (\<lambda>i. the (timestamp (ps ! Suc i)) - the (timestamp (ps ! i))) [0..<length ps - 1]"

text \<open>
  The separation of consecutive events of a list: the distance in time between each
  event and the one before it, whichever of the two is stamped earlier.
\<close>

definition separations_ms :: "event list \<Rightarrow> int list" where
  "separations_ms ps =
     map (\<lambda>i. \<bar>the (timestamp (ps ! Suc i)) - the (timestamp (ps ! i))\<bar>) [0..<length ps - 1]"

text \<open>A list of events whose timestamps do not decrease along the list.\<close>

definition time_ordered :: "event list \<Rightarrow> bool" where
  "time_ordered ps = sorted (map timestamp_or_0 ps)"

text \<open>
  The funnel condition: the three event types each occur, and their first positions are
  in the order page view, click, purchase.
\<close>

definition funnel_order :: "event list \<Rightarrow> bool" where
  "funnel_order events =
     (\<exists>v c p. first_occurrence (map event_type events) (Some ''page_view'') v \<and>
              first_occurrence (map event_type events) (Some ''click'') c \<and>
              first_occurrence (map event_type events) (Some ''purchase'') p \<and>
              v < c \<and> c < p)"

text \<open>An event of user \<open>u1\<close> in session \<open>s1\<close>, for concrete instances.\<close>

definition sample_event :: "string \<Rightarrow> int \<Rightarrow> event" where
  "sample_event ty ts =
     \<lparr>event_id = Some ''e'', user_id = Some ''u1'', session_id = Some ''s1'',
      event_type = Some ty, timestamp = Some ts, amount = None, causality_chain = None\<rparr>"

section \<open>Sliding window (\<^verbatim>\<open>services/processor-advanced/processor.py\<close>)\<close>

text \<open>
  \<^verbatim>\<open>aggregates\<close> is a \<^verbatim>\<open>defaultdict\<close> of \<^verbatim>\<open>defaultdict(float)\<close>: a two-level dictionary
  of numbers in which reading an absent entry gives \<open>0.0\<close>.
\<close>

type_synonym aggregate_map = "string \<rightharpoonup> (string \<rightharpoonup> rat)"

record sliding_window =
  window_size :: int
  slide_interval :: int
  sw_events :: "(rat \<times> event) list"
  aggregates :: aggregate_map

definition SlidingWindow :: "int \<Rightarrow> sliding_window" where
  "SlidingWindow ws =
     \<lparr>window_size = ws, slide_interval = 10, sw_events = [], aggregates = Map.empty\<rparr>"

text \<open>\<^verbatim>\<open>aggregates[k1][k2] += v\<close>.\<close>

definition add_to :: "aggregate_map \<Rightarrow> string \<Rightarrow> string \<Rightarrow> rat \<Rightarrow> aggregate_map" where
  "add_to a k1 k2 v =
     (let inner = (case a k1 of None \<Rightarrow> Map.empty | Some m \<Rightarrow> m)
      in a(k1 \<mapsto> inner(k2 \<mapsto> (case inner k2 of None \<Rightarrow> 0 | Some x \<Rightarrow> x) + v)))"

text \<open>Reading \<^verbatim>\<open>aggregates[k1][k2]\<close>.\<close>

definition agg_get :: "aggregate_map \<Rightarrow> string \<Rightarrow> string \<Rightarrow> rat" where
  "agg_get a k1 k2 =
     (case a k1 of None \<Rightarrow> 0 | Some m \<Rightarrow> (case m k2 of None \<Rightarrow> 0 | Some x \<Rightarrow> x))"

text \<open>\<^verbatim>\<open>event.get('event_type', 'unknown')\<close>.\<close>

definition event_type_or_unknown :: "event \<Rightarrow> string" where
  "event_type_or_unknown e = (case event_type e of None \<Rightarrow> ''unknown'' | Some ty \<Rightarrow> ty)"

text \<open>
  One round of the loop of \<^verbatim>\<open>_update_aggregates\<close>. While the loop runs, the entry
  \<^verbatim>\<open>aggregates['unique_users']\<close> is the dictionary of the user ids seen; it is kept here
  as the list of its keys, beside the numeric entries. A user id counts when it is
  truthy: present and not the empty string.
\<close>

definition aggregate_step ::
  "rat \<times> event \<Rightarrow> aggregate_map \<times> string list \<Rightarrow> aggregate_map \<times> string list" where
  "aggregate_step te st =
     (let e = snd te; a = fst st; users = snd st;
          ty = event_type_or_unknown e;
          a1 = add_to a ''counts'' ty 1;
          a2 = add_to a1 ''total'' ''events'' 1;
          users' = (case user_id e of
                      None \<Rightarrow> users
                    | Some u \<Rightarrow> if u \<noteq> [] then List.insert u users else users);
          a3 = (case amount e of
                  None \<Rightarrow> a2
                | Some x \<Rightarrow> add_to (add_to a2 ''revenue'' ''total'' x) ''revenue'' ty x)
      in (a3, users'))"

text \<open>
  \<^verbatim>\<open>_update_aggregates\<close>: clear, rescan the retained entries, then replace the user
  dictionary by its size.
\<close>

definition recompute :: "(rat \<times> event) list \<Rightarrow> aggregate_map" where
  "recompute entries =
     (let st = fold aggregate_step entries (Map.empty, [])
      in (fst st)(''unique_users'' \<mapsto> [''count'' \<mapsto> of_nat (length (snd st))]))"

definition update_aggregates :: "sliding_window \<Rightarrow> sliding_window" where
  "update_aggregates sw = sw\<lparr>aggregates := recompute (sw_events sw)\<rparr>"

text \<open>
  \<^verbatim>\<open>add_event\<close>; \<open>current_time\<close> is the clock reading. The \<^verbatim>\<open>while\<close> loop pops from the
  left as long as the oldest entry is older than the cutoff.
\<close>

definition add_event :: "sliding_window \<Rightarrow> rat \<Rightarrow> event \<Rightarrow> sliding_window" where
  "add_event sw current_time e =
     (let evs = sw_events sw @ [(current_time, e)];
          cutoff_time = current_time - of_int (window_size sw)
      in update_aggregates (sw\<lparr>sw_events := dropWhile (\<lambda>te. fst te < cutoff_time) evs\<rparr>))"

text \<open>A sequence of insertions, each with the clock reading of its \<^verbatim>\<open>add_event\<close>.\<close>

definition add_events :: "sliding_window \<Rightarrow> (rat \<times> event) list \<Rightarrow> sliding_window" where
  "add_events sw ins = foldl (\<lambda>s te. add_event s (fst te) (snd te)) sw ins"

text \<open>
  The aggregates in the terms of their description, over a list of entries: the number
  of entries of an event type, the number of distinct user ids, the sum of the amounts,
  and the sum of the amounts of an event type.
\<close>

definition count_of_type :: "string \<Rightarrow> (rat \<times> event) list \<Rightarrow> nat" where
  "count_of_type ty entries =
     length (filter (\<lambda>te. event_type_or_unknown (snd te) = ty) entries)"

definition unique_users :: "(rat \<times> event) list \<Rightarrow> string set" where
  "unique_users entries =
     {u. u \<noteq> [] \<and> (\<exists>te \<in> set entries. user_id (snd te) = Some u)}"

definition amount_or_0 :: "event \<Rightarrow> rat" where
  "amount_or_0 e = (case amount e of None \<Rightarrow> 0 | Some x \<Rightarrow> x)"

definition total_revenue :: "(rat \<times> event) list \<Rightarrow> rat" where
  "total_revenue entries = sum_list (map (\<lambda>te. amount_or_0 (snd te)) entries)"

definition revenue_of_type :: "string \<Rightarrow> (rat \<times> event) list \<Rightarrow> rat" where
  "revenue_of_type ty entries =
     total_revenue (filter (\<lambda>te. event_type_or_unknown (snd te) = ty) entries)"

text \<open>
  Membership of an entry in the window that ends at \<open>now\<close>: without its older end
  (half-open) and with it (closed).
\<close>

definition half_open_window :: "rat \<Rightarrow> int \<Rightarrow> rat \<times> event \<Rightarrow> bool" where
  "half_open_window now ws te = (now - of_int ws < fst te \<and> fst te \<le> now)"

definition closed_window :: "rat \<Rightarrow> int \<Rightarrow> rat \<times> event \<Rightarrow> bool" where
  "closed_window now ws te = (now - of_int ws \<le> fst te \<and> fst te \<le> now)"

section \<open>Idempotency filter and consumer loop (\<^verbatim>\<open>services/processor-advanced/processor.py\<close>)\<close>

text \<open>\<^verbatim>\<open>str\<close> of an integer: decimal digits, with a sign for negative numbers.\<close>

fun str_nat :: "nat \<Rightarrow> string" where
  "str_nat n =
     (if n < 10 then [''0123456789'' ! n]
      else str_nat (n div 10) @ [''0123456789'' ! (n mod 10)])"

declare str_nat.simps [simp del]

definition str_int :: "int \<Rightarrow> string" where
  "str_int i = (if i < 0 then ''-'' @ str_nat (nat (- i)) else str_nat (nat i))"

text \<open>
  The string that \<^verbatim>\<open>generate_idempotency_key\<close> hashes: the f-string
  \<^verbatim>\<open>{event_id}:{user_id}:{timestamp}:{STAGE}\<close>, an absent key printing as the empty string.
  \<open>stage\<close> is the module constant \<^verbatim>\<open>STAGE\<close>.
\<close>

definition key_data :: "string \<Rightarrow> event \<Rightarrow> string" where
  "key_data stage e =
     (case event_id e of None \<Rightarrow> [] | Some s \<Rightarrow> s) @ '':'' @
     (case user_id e of None \<Rightarrow> [] | Some s \<Rightarrow> s) @ '':'' @
     (case timestamp e of None \<Rightarrow> [] | Some t \<Rightarrow> str_int t) @ '':'' @ stage"

text \<open>
  \<^verbatim>\<open>generate_idempotency_key\<close>. The digest \<^verbatim>\<open>hashlib.sha256(...).hexdigest()\<close> belongs to
  the standard library and is the parameter \<open>H\<close>.
\<close>

definition generate_idempotency_key :: "(string \<Rightarrow> string) \<Rightarrow> string \<Rightarrow> event \<Rightarrow> string" where
  "generate_idempotency_key H stage e = H (key_data stage e)"

text \<open>The tuple the key is made from (the stage is fixed for a processor).\<close>

definition key_tuple :: "event \<Rightarrow> string option \<times> string option \<times> int option" where
  "key_tuple e = (event_id e, user_id e, timestamp e)"

text \<open>
  The idempotency check at the head of \<^verbatim>\<open>AdvancedProcessor.process_event\<close>: whether the
  event is to be processed, and the cache afterwards.
\<close>

definition should_process ::
  "(string \<Rightarrow> string) \<Rightarrow> string \<Rightarrow> string set \<Rightarrow> event \<Rightarrow> bool \<times> string set" where
  "should_process H stage cache e =
     (let idem_key = generate_idempotency_key H stage e
      in if idem_key \<in> cache then (False, cache) else (True, insert idem_key cache))"

text \<open>The answers of the check over a sequence of events, from a given cache.\<close>

fun should_process_all ::
  "(string \<Rightarrow> string) \<Rightarrow> string \<Rightarrow> string set \<Rightarrow> event list \<Rightarrow> bool list \<times> string set" where
  "should_process_all H stage cache [] = ([], cache)"
| "should_process_all H stage cache (e # es) =
     (case should_process H stage cache e of
        (b, cache') \<Rightarrow>
          (case should_process_all H stage cache' es of (bs, cache'') \<Rightarrow> (b # bs, cache'')))"

text \<open>
  The processor: the idempotency cache, the counter \<^verbatim>\<open>idempotency_hits\<close>, the pattern
  buffers of the complex event processor, and the state \<open>'st\<close> of the stage.
\<close>

record 'st processor =
  idempotency_cache :: "string set"
  idempotency_hits :: nat
  cep_buffers :: pattern_buffers
  stage_state :: 'st

record 'enr processed_event =
  original_event :: event
  enrichments :: 'enr
  patterns :: "detected_patterns option"
  pe_idempotency_key :: string
  pe_stage :: string
  pe_timestamp :: int

text \<open>\<^verbatim>\<open>int(x)\<close> of a float truncates towards zero.\<close>

definition py_int :: "rat \<Rightarrow> int" where
  "py_int x = (if 0 \<le> x then \<lfloor>x\<rfloor> else \<lceil>x\<rceil>)"

text \<open>\<^verbatim>\<open>if cep_results:\<close> holds when at least one detector has put its name in the dictionary.\<close>

definition nonempty_patterns :: "detected_patterns \<Rightarrow> detected_patterns option" where
  "nonempty_patterns dp =
     (if purchase_funnel dp = None \<and> fraud_pattern dp = None \<and> churn_pattern dp = None
      then None else Some dp)"

text \<open>
  \<^verbatim>\<open>AdvancedProcessor.process_event\<close>. The stage-specific branch (enrichment, aggregation
  or inference) is the parameter \<open>stage_processing\<close>, acting on the stage's state;
  \<open>clock\<close> stands for the clock readings of one call. The key is put into the cache
  before the stage runs, so it stays there when the stage or a detector raises.
  The result \<open>Inr None\<close> is the \<^verbatim>\<open>return None\<close> of a duplicate.
\<close>

definition process_event ::
  "(string \<Rightarrow> string) \<Rightarrow> string \<Rightarrow> ('st \<Rightarrow> rat \<Rightarrow> event \<Rightarrow> (py_error + 'enr) \<times> 'st)
     \<Rightarrow> 'st processor \<Rightarrow> rat \<Rightarrow> event
     \<Rightarrow> (py_error + 'enr processed_event option) \<times> 'st processor" where
  "process_event H stage stage_processing p clock e =
     (case should_process H stage (idempotency_cache p) e of
        (False, _) \<Rightarrow> (Inr None, p\<lparr>idempotency_hits := idempotency_hits p + 1\<rparr>)
      | (True, cache') \<Rightarrow>
          (let p1 = p\<lparr>idempotency_cache := cache'\<rparr> in
           case stage_processing (stage_state p1) clock e of
             (Inl err, st') \<Rightarrow> (Inl err, p1\<lparr>stage_state := st'\<rparr>)
           | (Inr enr, st') \<Rightarrow>
               (let p2 = p1\<lparr>stage_state := st'\<rparr> in
                case cep_process_event (cep_buffers p2) clock clock clock e of
                  (Inl err, pb') \<Rightarrow> (Inl err, p2\<lparr>cep_buffers := pb'\<rparr>)
                | (Inr dp, pb') \<Rightarrow>
                    (Inr (Some \<lparr>original_event = e, enrichments = enr,
                                patterns = nonempty_patterns dp,
                                pe_idempotency_key = generate_idempotency_key H stage e,
                                pe_stage = stage, pe_timestamp = py_int (clock * 1000)\<rparr>),
                     p2\<lparr>cep_buffers := pb'\<rparr>))))"

text \<open>The branch \<^verbatim>\<open>STAGE == "aggregation"\<close>: the event goes into the sliding window.\<close>

definition aggregation_stage ::
  "sliding_window \<Rightarrow> rat \<Rightarrow> event \<Rightarrow> (py_error + aggregate_map) \<times> sliding_window" where
  "aggregation_stage sw clock e =
     (let sw' = add_event sw clock e in (Inr (aggregates sw'), sw'))"

text \<open>
  A message of the stream: its id and the field \<^verbatim>\<open>data\<close> (absent: \<open>None\<close>). The payload
  either decodes to an event dictionary or makes \<^verbatim>\<open>orjson.loads\<close> raise.
\<close>

datatype payload = Decodes event | Malformed string

type_synonym message = "string \<times> payload option"

definition loads :: "payload option \<Rightarrow> py_error + event" where
  "loads f =
     (case f of
        None \<Rightarrow> Inl (KeyError ''data'')
      | Some (Malformed s) \<Rightarrow> Inl JSONDecodeError
      | Some (Decodes e) \<Rightarrow> Inr e)"

text \<open>
  The state of one pass over a batch: the processor, the lists \<^verbatim>\<open>processed_events\<close> and
  \<^verbatim>\<open>ack_ids\<close>, and the error log (the message id and the exception of each
  \<^verbatim>\<open>logger.error\<close> call of the inner handler).
\<close>

record ('st, 'enr) batch =
  proc :: "'st processor"
  processed_events :: "'enr processed_event list"
  ack_ids :: "(string \<times> string) list"
  error_log :: "(string \<times> py_error) list"

text \<open>
  The body of the inner loop of \<^verbatim>\<open>run\<close> for one message: decode, process, collect the
  result, and note the id for acknowledgement; any exception on the way is logged and
  nothing else happens for the message.
\<close>

definition handle_message ::
  "(string \<Rightarrow> string) \<Rightarrow> string \<Rightarrow> ('st \<Rightarrow> rat \<Rightarrow> event \<Rightarrow> (py_error + 'enr) \<times> 'st)
     \<Rightarrow> rat \<Rightarrow> string \<Rightarrow> message \<Rightarrow> ('st, 'enr) batch \<Rightarrow> ('st, 'enr) batch" where
  "handle_message H stage stage_processing clock stream_name m b =
     (case loads (snd m) of
        Inl err \<Rightarrow> b\<lparr>error_log := error_log b @ [(fst m, err)]\<rparr>
      | Inr event_data \<Rightarrow>
          (case process_event H stage stage_processing (proc b) clock event_data of
             (Inl err, p') \<Rightarrow> b\<lparr>proc := p', error_log := error_log b @ [(fst m, err)]\<rparr>
           | (Inr processed, p') \<Rightarrow>
               b\<lparr>proc := p',
                 processed_events :=
                   (case processed of
                      None \<Rightarrow> processed_events b
                    | Some pe \<Rightarrow> processed_events b @ [pe]),
                 ack_ids := ack_ids b @ [(stream_name, fst m)]\<rparr>))"

definition handle_messages ::
  "(string \<Rightarrow> string) \<Rightarrow> string \<Rightarrow> ('st \<Rightarrow> rat \<Rightarrow> event \<Rightarrow> (py_error + 'enr) \<times> 'st)
     \<Rightarrow> rat \<Rightarrow> string \<Rightarrow> message list \<Rightarrow> ('st, 'enr) batch \<Rightarrow> ('st, 'enr) batch" where
  "handle_messages H stage stage_processing clock stream_name ms b =
     fold (handle_message H stage stage_processing clock stream_name) ms b"

definition handle_streams ::
  "(string \<Rightarrow> string) \<Rightarrow> string \<Rightarrow> ('st \<Rightarrow> rat \<Rightarrow> event \<Rightarrow> (py_error + 'enr) \<times> 'st)
     \<Rightarrow> rat \<Rightarrow> (string \<times> message list) list \<Rightarrow> ('st, 'enr) batch \<Rightarrow> ('st, 'enr) batch" where
  "handle_streams H stage stage_processing clock streams b =
     fold (\<lambda>sm. handle_messages H stage stage_processing clock (fst sm) (snd sm)) streams b"

text \<open>
  Whether \<^verbatim>\<open>orjson.dumps(asdict(processed))\<close> goes through. A fraud result holds the
  \<^verbatim>\<open>numpy.float64\<close> of \<^verbatim>\<open>np.mean\<close>, which the encoder refuses; what the stage has put
  into the enrichments is judged by the parameter \<open>enr_ok\<close>.
\<close>

definition wire_encodable :: "('enr \<Rightarrow> bool) \<Rightarrow> 'enr processed_event \<Rightarrow> bool" where
  "wire_encodable enr_ok pe =
     (enr_ok (enrichments pe) \<and>
      (case patterns pe of None \<Rightarrow> True | Some dp \<Rightarrow> fraud_pattern dp = None))"

text \<open>
  For the aggregation stage: the inner dictionaries \<^verbatim>\<open>counts\<close>, \<^verbatim>\<open>total\<close> and \<^verbatim>\<open>revenue\<close> of
  the window aggregates are \<^verbatim>\<open>defaultdict\<close>s, which \<^verbatim>\<open>dataclasses.asdict\<close> cannot copy (it
  calls the dictionary's type on the items); only \<^verbatim>\<open>unique_users\<close> is a plain dictionary.
\<close>

definition aggregates_encodable :: "aggregate_map \<Rightarrow> bool" where
  "aggregates_encodable a = (a ''counts'' = None \<and> a ''total'' = None \<and> a ''revenue'' = None)"

text \<open>
  The log service as the loop sees it: the output stream and the acknowledged
  messages. The processed events are encoded one by one before the pipeline is
  executed; \<open>execute_ok\<close> tells whether the pipeline write succeeds and \<open>xack_fails_at\<close>
  which acknowledgement, if any, raises. Each of these exceptions ends the pass in the
  outer handler, which logs and sleeps; after an exception of the encoder or of the
  pipeline nothing has been written and nothing is acknowledged.
\<close>

record 'enr broker =
  output_stream :: "'enr processed_event list"
  acked :: "(string \<times> string) list"

definition run_pass ::
  "(string \<Rightarrow> string) \<Rightarrow> string \<Rightarrow> ('st \<Rightarrow> rat \<Rightarrow> event \<Rightarrow> (py_error + 'enr) \<times> 'st)
     \<Rightarrow> ('enr \<Rightarrow> bool) \<Rightarrow> rat \<Rightarrow> bool \<Rightarrow> nat option \<Rightarrow> (string \<times> message list) list
     \<Rightarrow> 'st processor \<times> 'enr broker \<Rightarrow> ('st, 'enr) batch \<times> 'enr broker" where
  "run_pass H stage stage_processing enr_ok clock execute_ok xack_fails_at streams pb =
     (let b = handle_streams H stage stage_processing clock streams
                \<lparr>proc = fst pb, processed_events = [], ack_ids = [], error_log = []\<rparr>;
          br = snd pb
      in if streams = [] then (b, br)
         else if processed_events b \<noteq> [] \<and>
                 (\<not> list_all (wire_encodable enr_ok) (processed_events b) \<or> \<not> execute_ok)
              then (b, br)
         else
           (b, br\<lparr>output_stream := output_stream br @ processed_events b,
                  acked := acked br @
                    (case xack_fails_at of
                       None \<Rightarrow> ack_ids b
                     | Some n \<Rightarrow> take n (ack_ids b))\<rparr>))"

definition new_processor :: "'st \<Rightarrow> 'st processor" where
  "new_processor st =
     \<lparr>idempotency_cache = {}, idempotency_hits = 0, cep_buffers = (\<lambda>k. []),
      stage_state = st\<rparr>"

definition parses :: "message \<Rightarrow> bool" where
  "parses m = (case snd m of Some (Decodes e) \<Rightarrow> True | _ \<Rightarrow> False)"

text \<open>Two batch states that differ at most in the error log.\<close>

definition same_but_log :: "('st, 'enr) batch \<Rightarrow> ('st, 'enr) batch \<Rightarrow> bool" where
  "same_but_log b b' =
     (proc b = proc b' \<and> processed_events b = processed_events b' \<and> ack_ids b = ack_ids b')"

section \<open>Anomaly detector (\<^verbatim>\<open>services/ml-detector/ml_detector.py\<close>)\<close>

text \<open>
  The baseline dictionary of one user. The three derived entries are written by every
  update, in the call that creates the dictionary, so they are always present when
  the baseline is read.
\<close>

record baseline =
  bl_events :: "event list"
  sessions :: "string list"
  purchases :: "rat list"
  last_seen :: rat
  avg_session_events :: rat
  avg_purchase_amount :: rat
  sessions_count :: nat

text \<open>
  One entry of the dictionary of behavioural anomalies. \<open>has_numpy\<close> records whether one
  of its values is a \<^verbatim>\<open>numpy.float64\<close> rather than a Python number; the JSON encoder
  used by \<^verbatim>\<open>store_anomaly\<close> does not accept such a value.
\<close>

record anomaly =
  score :: rat
  details :: "(string \<times> rat) list"
  has_numpy :: bool

record analysis =
  a_event_id :: "string option"
  a_user_id :: "string option"
  a_timestamp :: "int option"
  ml_anomaly_score :: rat
  ml_numpy :: bool
  behavioral_anomalies :: "(string \<times> anomaly) list"
  combined_anomaly_score :: rat
  is_anomaly :: bool
  a_model_version :: nat

text \<open>
  The detector. Of \<^verbatim>\<open>feature_buffer\<close> (a deque of at most 10000 feature vectors) only
  the length is kept: its content is read by the training alone, which belongs to the
  learning library. \<^verbatim>\<open>anomaly_buffer\<close> is a deque of at most 1000 results.
\<close>

record detector =
  user_baselines :: "string \<rightharpoonup> baseline"
  feature_buffer_len :: nat
  anomaly_buffer :: "analysis list"
  is_trained :: bool
  model_version :: nat

definition AdvancedAnomalyDetector :: detector where
  "AdvancedAnomalyDetector =
     \<lparr>user_baselines = Map.empty, feature_buffer_len = 0, anomaly_buffer = [],
      is_trained = False, model_version = 1\<rparr>"

text \<open>\<^verbatim>\<open>deque(maxlen=n).append\<close>: the oldest element leaves when the deque is full.\<close>

definition deque_append :: "nat \<Rightarrow> 'a list \<Rightarrow> 'a \<Rightarrow> 'a list" where
  "deque_append maxlen xs x =
     (if maxlen = 0 then []
      else if length xs < maxlen then xs @ [x] else tl xs @ [x])"

text \<open>\<^verbatim>\<open>properties.get('amount', 0)\<close> followed by the truth test \<^verbatim>\<open>if amount:\<close>.\<close>

definition truthy_amount :: "event \<Rightarrow> rat option" where
  "truthy_amount e = (case amount e of None \<Rightarrow> None | Some x \<Rightarrow> if x = 0 then None else Some x)"

definition truthy :: "string option \<Rightarrow> string option" where
  "truthy x = (case x of None \<Rightarrow> None | Some s \<Rightarrow> if s = [] then None else Some s)"

text \<open>\<^verbatim>\<open>update_user_baseline\<close>; \<open>now\<close> is the clock reading.\<close>

definition update_user_baseline :: "detector \<Rightarrow> rat \<Rightarrow> event \<Rightarrow> detector" where
  "update_user_baseline d now e =
     (case truthy (user_id e) of
        None \<Rightarrow> d
      | Some u \<Rightarrow>
          (let b0 = (case user_baselines d u of
                       None \<Rightarrow> \<lparr>bl_events = [], sessions = [], purchases = [], last_seen = now,
                                 avg_session_events = 0, avg_purchase_amount = 0,
                                 sessions_count = 0\<rparr>
                     | Some b \<Rightarrow> b);
               evs = bl_events b0 @ [e];
               ss = (case truthy (session_id e) of
                       None \<Rightarrow> sessions b0
                     | Some s \<Rightarrow> List.insert s (sessions b0));
               ps = (if event_type e = Some ''purchase'' then
                       (case truthy_amount e of None \<Rightarrow> purchases b0
                        | Some x \<Rightarrow> purchases b0 @ [x])
                     else purchases b0);
               b1 = \<lparr>bl_events =
                       filter (\<lambda>x. of_int (timestamp_or_0 x) / 1000 > now - 7 * 24 * 3600) evs,
                     sessions = ss, purchases = ps, last_seen = now,
                     avg_session_events = of_nat (length evs) / of_nat (max 1 (length ss)),
                     avg_purchase_amount = (if ps = [] then 25 else mean ps),
                     sessions_count = length ss\<rparr>
           in d\<lparr>user_baselines := (user_baselines d)(u \<mapsto> b1)\<rparr>))"

text \<open>
  The hour of \<^verbatim>\<open>pd.to_datetime(seconds, unit='s')\<close>: the hour of the day in UTC. A time
  that does not fit the 64-bit nanosecond range of a pandas timestamp raises
  \<^verbatim>\<open>OutOfBoundsDatetime\<close>.
\<close>

definition representable :: "rat \<Rightarrow> bool" where
  "representable secs =
     (- 9223372036854775807 \<le> secs * 1000000000 \<and> secs * 1000000000 \<le> 9223372036854775807)"

definition hour_of :: "rat \<Rightarrow> py_error + nat" where
  "hour_of secs =
     (if representable secs then Inr (nat (\<lfloor>secs / 3600\<rfloor> mod 24))
      else Inl OutOfBoundsDatetime)"

text \<open>\<^verbatim>\<open>event.get('timestamp', time.time() * 1000) / 1000\<close>.\<close>

definition event_seconds :: "rat \<Rightarrow> event \<Rightarrow> rat" where
  "event_seconds now e = (case timestamp e of None \<Rightarrow> now * 1000 | Some t \<Rightarrow> of_int t) / 1000"

text \<open>
  \<^verbatim>\<open>extract_features\<close>, as far as it can fail: the time conversion, and \<^verbatim>\<open>len\<close> of a
  causality chain that is \<^verbatim>\<open>null\<close>. The vector itself goes to the learning library.
\<close>

definition extract_features :: "rat \<Rightarrow> event \<Rightarrow> py_error + unit" where
  "extract_features now e =
     (case hour_of (event_seconds now e) of
        Inl err \<Rightarrow> Inl err
      | Inr _ \<Rightarrow> (if causality_chain e = Some None then Inl TypeError else Inr ()))"

text \<open>
  \<^verbatim>\<open>detect_behavioral_anomalies\<close>. The dictionary of anomalies is kept as the list of its
  items in insertion order. In \<^verbatim>\<open>unusual_purchase\<close> the user average comes from
  \<^verbatim>\<open>np.mean\<close>; when it is zero the quotient is numpy's infinity (the amount is positive
  there) and the score is the cap \<open>1.0\<close>. The stored average is a \<^verbatim>\<open>numpy.float64\<close>
  exactly when the user has purchases on record (otherwise it is the Python default
  \<open>25.0\<close>); the other checks give Python numbers.
\<close>

definition rapid_fire_check :: "detector \<Rightarrow> rat \<Rightarrow> event \<Rightarrow> (string \<times> anomaly) list" where
  "rapid_fire_check d now e =
     (case user_id e of
        None \<Rightarrow> []
      | Some u \<Rightarrow>
          (case user_baselines d u of
             None \<Rightarrow> []
           | Some b \<Rightarrow>
               (let recent_events =
                      filter (\<lambda>x. of_int (timestamp_or_0 x) / 1000 > now - 60) (bl_events b)
                in if length recent_events > 20 then
                     [(''rapid_fire'',
                       \<lparr>score = min 1 (of_nat (length recent_events) / 50),
                        details = [(''events_per_minute'', of_nat (length recent_events))],
                        has_numpy = False\<rparr>)]
                   else [])))"

definition purchase_checks :: "detector \<Rightarrow> event \<Rightarrow> (string \<times> anomaly) list" where
  "purchase_checks d e =
     (if event_type e = Some ''purchase'' then
        (case truthy_amount e of
           None \<Rightarrow> []
         | Some amt \<Rightarrow>
             (case (case user_id e of None \<Rightarrow> None | Some u \<Rightarrow> user_baselines d u) of
                None \<Rightarrow> []
              | Some b \<Rightarrow>
                  (let user_avg = avg_purchase_amount b
                   in if amt > user_avg * 5 then
                        [(''unusual_purchase'',
                          \<lparr>score = (if user_avg * 10 = 0 then 1
                                    else min 1 (amt / (user_avg * 10))),
                           details = [(''amount'', amt), (''user_average'', user_avg)],
                           has_numpy = (purchases b \<noteq> [])\<rparr>)]
                      else []))
             @ (if amt > 50 * 10 then
                  [(''high_value_purchase'',
                    \<lparr>score = min 1 (amt / 1000), details = [(''amount'', amt)],
                     has_numpy = False\<rparr>)]
                else []))
      else [])"

definition time_check :: "rat \<Rightarrow> event \<Rightarrow> py_error + (string \<times> anomaly) list" where
  "time_check now e =
     (case hour_of (event_seconds now e) of
        Inl err \<Rightarrow> Inl err
      | Inr hour \<Rightarrow>
          Inr (if hour < 6 \<or> hour > 23 then
                 [(''unusual_time'',
                   \<lparr>score = 3 / 10, details = [(''hour'', of_nat hour)], has_numpy = False\<rparr>)]
               else []))"

definition detect_behavioral_anomalies ::
  "detector \<Rightarrow> rat \<Rightarrow> event \<Rightarrow> py_error + (string \<times> anomaly) list" where
  "detect_behavioral_anomalies d now e =
     (case time_check now e of
        Inl err \<Rightarrow> Inl err
      | Inr t \<Rightarrow> Inr (rapid_fire_check d now e @ purchase_checks d e @ t))"

text \<open>
  \<^verbatim>\<open>get_ml_anomaly_score\<close>. \<open>decision\<close> is what the inference (scaling and the forest's
  \<^verbatim>\<open>decision_function\<close>) gives for the event, \<open>None\<close> when it raises; it is only consulted
  once a model has been trained.
\<close>

definition get_ml_anomaly_score :: "detector \<Rightarrow> rat option \<Rightarrow> rat" where
  "get_ml_anomaly_score d decision =
     (if \<not> is_trained d then 0
      else (case decision of
              None \<Rightarrow> 0
            | Some s \<Rightarrow> max 0 (min 1 ((1 / 2 - s) / 1))))"

text \<open>
  Whether the value returned by \<^verbatim>\<open>get_ml_anomaly_score\<close> is a \<^verbatim>\<open>numpy.float64\<close>. The
  decision value is one, and so is \<^verbatim>\<open>(0.5 - score) / 1.0\<close>; \<^verbatim>\<open>max(0, min(1, x))\<close> returns
  \<open>x\<close> itself when it lies strictly between the bounds and the Python integer \<open>0\<close> or
  \<open>1\<close> otherwise. An untrained detector and a failed inference return the Python float
  \<open>0.0\<close>.
\<close>

definition ml_score_numpy :: "detector \<Rightarrow> rat option \<Rightarrow> bool" where
  "ml_score_numpy d decision =
     (is_trained d \<and>
      (case decision of
         None \<Rightarrow> False
       | Some s \<Rightarrow> 0 < (1 / 2 - s) / 1 \<and> (1 / 2 - s) / 1 < 1))"

text \<open>\<^verbatim>\<open>max(list, default=0)\<close>.\<close>

definition max_default :: "rat list \<Rightarrow> rat" where
  "max_default xs = (case xs of [] \<Rightarrow> 0 | y # ys \<Rightarrow> fold max ys y)"

text \<open>
  \<^verbatim>\<open>analyze_event\<close>: the result (without the entry \<^verbatim>\<open>analysis_time\<close>) and the detector
  afterwards. An exception of the feature extraction leaves the baseline updated.
\<close>

definition analyze_event ::
  "detector \<Rightarrow> rat \<Rightarrow> rat option \<Rightarrow> event \<Rightarrow> (py_error + analysis) \<times> detector" where
  "analyze_event d now decision e =
     (let d1 = update_user_baseline d now e in
      case extract_features now e of
        Inl err \<Rightarrow> (Inl err, d1)
      | Inr _ \<Rightarrow>
          (let d2 = d1\<lparr>feature_buffer_len := min 10000 (feature_buffer_len d1 + 1)\<rparr>;
               ml_score = get_ml_anomaly_score d2 decision
           in case detect_behavioral_anomalies d2 now e of
                Inl err \<Rightarrow> (Inl err, d2)
              | Inr behavioral \<Rightarrow>
                  (let max_behavioral_score = max_default (map (\<lambda>na. score (snd na)) behavioral);
                       combined_score = max ml_score max_behavioral_score;
                       result = \<lparr>a_event_id = event_id e, a_user_id = user_id e,
                                 a_timestamp = timestamp e, ml_anomaly_score = ml_score,
                                 ml_numpy = ml_score_numpy d2 decision,
                                 behavioral_anomalies = behavioral,
                                 combined_anomaly_score = combined_score,
                                 is_anomaly = (combined_score > 7 / 10),
                                 a_model_version = model_version d2\<rparr>
                   in (Inr result,
                       if combined_score > 1 / 2
                       then d2\<lparr>anomaly_buffer := deque_append 1000 (anomaly_buffer d2) result\<rparr>
                       else d2))))"

text \<open>
  \<^verbatim>\<open>train_model\<close>; \<open>fit_ok\<close> tells whether the fitting runs through (an exception is
  logged and leaves the detector as it was).
\<close>

definition train_model :: "detector \<Rightarrow> bool \<Rightarrow> detector" where
  "train_model d fit_ok =
     (if feature_buffer_len d < 100 then d
      else if fit_ok then d\<lparr>is_trained := True, model_version := model_version d + 1\<rparr>
      else d)"

text \<open>
  The external store as \<^verbatim>\<open>store_anomaly\<close> uses it: hashes by key, the expiry set on a
  key (in seconds), and the stream \<^verbatim>\<open>anomaly_alerts\<close>.
\<close>

record stored_anomaly =
  st_data :: analysis
  st_timestamp :: int
  st_score :: rat

record alert =
  anomaly_id :: string
  alert_score :: rat
  alert_type :: string
  alert_data :: analysis

record store =
  hashes :: "string \<rightharpoonup> stored_anomaly"
  expiry :: "string \<rightharpoonup> nat"
  anomaly_alerts :: "alert list"

definition empty_store :: store where
  "empty_store = \<lparr>hashes = Map.empty, expiry = Map.empty, anomaly_alerts = []\<rparr>"

text \<open>
  The calls of \<^verbatim>\<open>store_anomaly\<close> to the store; \<open>fails\<close> below names the one that raises
  for reasons of the store itself (connection, server), if one does.
\<close>

datatype store_call = Hset | Expire | Xadd

definition anomaly_key :: "analysis \<Rightarrow> string" where
  "anomaly_key a = ''anomaly:'' @ str_opt (a_event_id a)"

text \<open>
  \<^verbatim>\<open>orjson.dumps(analysis)\<close> raises \<^verbatim>\<open>TypeError\<close> on a \<^verbatim>\<open>numpy.float64\<close>: the record can be
  encoded when neither the learned score nor an entry of the behavioural anomalies
  holds one. (The combined score and \<^verbatim>\<open>is_anomaly\<close> are numpy values only when one of
  those is.)
\<close>

definition json_encodable :: "analysis \<Rightarrow> bool" where
  "json_encodable a =
     (\<not> ml_numpy a \<and> list_all (\<lambda>na. \<not> has_numpy (snd na)) (behavioral_anomalies a))"

text \<open>
  \<^verbatim>\<open>store_anomaly\<close>: the store afterwards and the exception its handler logged, if any.
  The record is encoded while the arguments of \<^verbatim>\<open>hset\<close> are built, so an exception of
  the encoder comes first and leaves the store untouched. The client refuses the
  value \<^verbatim>\<open>None\<close> with \<^verbatim>\<open>DataError\<close>: a record without a timestamp fails in \<^verbatim>\<open>hset\<close>, one
  without an event id in \<^verbatim>\<open>xadd\<close>, after the hash and its expiry have been written.
\<close>

definition store_anomaly ::
  "store \<Rightarrow> store_call option \<Rightarrow> analysis \<Rightarrow> store \<times> py_error option" where
  "store_anomaly st fails a =
     (if \<not> json_encodable a then (st, Some TypeError)
      else
        (case a_timestamp a of
           None \<Rightarrow> (st, Some DataError)
         | Some ts \<Rightarrow>
             if fails = Some Hset then (st, Some (Exception ''hset''))
             else
               (let st1 = st\<lparr>hashes := (hashes st)(anomaly_key a \<mapsto>
                               \<lparr>st_data = a, st_timestamp = ts,
                                st_score = combined_anomaly_score a\<rparr>)\<rparr>
                in if fails = Some Expire then (st1, Some (Exception ''expire''))
                   else
                     (let st2 = st1\<lparr>expiry := (expiry st1)(anomaly_key a \<mapsto> 86400)\<rparr>
                      in (case a_event_id a of
                            None \<Rightarrow> (st2, Some DataError)
                          | Some eid \<Rightarrow>
                              if fails = Some Xadd then (st2, Some (Exception ''xadd''))
                              else
                                (st2\<lparr>anomaly_alerts := anomaly_alerts st2 @
                                       [\<lparr>anomaly_id = eid,
                                         alert_score = combined_anomaly_score a,
                                         alert_type = ''ml_detected'', alert_data = a\<rparr>]\<rparr>,
                                 None))))))"

text \<open>
  A message of the stream of processed events: the payload decodes to a dictionary
  whose entry \<^verbatim>\<open>original_event\<close> is an event (the empty dictionary when the entry is
  absent), or it does not decode.
\<close>

datatype processed_payload = Processed "event option" | Undecodable string

definition empty_event :: event where
  "empty_event =
     \<lparr>event_id = None, user_id = None, session_id = None, event_type = None,
      timestamp = None, amount = None, causality_chain = None\<rparr>"

definition original_event_of :: "processed_payload option \<Rightarrow> py_error + event" where
  "original_event_of f =
     (case f of
        None \<Rightarrow> Inl (KeyError ''data'')
      | Some (Undecodable s) \<Rightarrow> Inl JSONDecodeError
      | Some (Processed None) \<Rightarrow> Inr empty_event
      | Some (Processed (Some e)) \<Rightarrow> Inr e)"

record service =
  the_detector :: detector
  the_store :: store
  svc_acked :: "(string \<times> string) list"
  svc_log :: "(string \<times> py_error) list"

text \<open>
  The body of the inner loop of \<^verbatim>\<open>MLDetectorService.process_events\<close> for one message:
  the analysis is stored only when \<^verbatim>\<open>is_anomaly\<close> holds; the message is acknowledged
  unless something raised before (\<open>xack_ok\<close> tells whether the acknowledgement itself
  goes through). An exception inside \<^verbatim>\<open>store_anomaly\<close> is logged there and does not
  reach this loop.
\<close>

definition detector_handle_message ::
  "rat \<Rightarrow> rat option \<Rightarrow> store_call option \<Rightarrow> bool \<Rightarrow> string
     \<Rightarrow> string \<times> processed_payload option \<Rightarrow> service \<Rightarrow> service" where
  "detector_handle_message now decision fails xack_ok stream_name m sv =
     (case original_event_of (snd m) of
        Inl err \<Rightarrow> sv\<lparr>svc_log := svc_log sv @ [(fst m, err)]\<rparr>
      | Inr orig_event \<Rightarrow>
          (case analyze_event (the_detector sv) now decision orig_event of
             (Inl err, d') \<Rightarrow> sv\<lparr>the_detector := d', svc_log := svc_log sv @ [(fst m, err)]\<rparr>
           | (Inr a, d') \<Rightarrow>
               (let sv1 = sv\<lparr>the_detector := d'\<rparr>;
                    sv2 = (if is_anomaly a then
                             (case store_anomaly (the_store sv1) fails a of
                                (st', None) \<Rightarrow> sv1\<lparr>the_store := st'\<rparr>
                              | (st', Some err) \<Rightarrow>
                                  sv1\<lparr>the_store := st', svc_log := svc_log sv1 @ [(fst m, err)]\<rparr>)
                           else sv1)
                in if xack_ok then sv2\<lparr>svc_acked := svc_acked sv2 @ [(stream_name, fst m)]\<rparr>
                   else sv2\<lparr>svc_log := svc_log sv2 @ [(fst m, Exception ''xack'')]\<rparr>)))"

definition new_service :: service where
  "new_service =
     \<lparr>the_detector = AdvancedAnomalyDetector, the_store = empty_store, svc_acked = [],
      svc_log = []\<rparr>"

text \<open>
  The largest of the sub-scores of the triggered behavioural checks, \<open>0\<close> when none is
  triggered.
\<close>

definition largest_subscore :: "(string \<times> anomaly) list \<Rightarrow> rat" where
  "largest_subscore bs = (if bs = [] then 0 else Max (set (map (\<lambda>na. score (snd na)) bs)))"

text \<open>
  The detector as \<^verbatim>\<open>analyze_event\<close> has it when the scores are taken: the baseline updated
  and the feature vector buffered.
\<close>

definition prepared :: "detector \<Rightarrow> rat \<Rightarrow> event \<Rightarrow> detector" where
  "prepared d now e =
     (update_user_baseline d now e)
       \<lparr>feature_buffer_len := min 10000 (feature_buffer_len (update_user_baseline d now e) + 1)\<rparr>"

text \<open>An anonymous purchase at noon (UTC) of the first day of the epoch, for instances.\<close>

definition sample_purchase :: "rat \<Rightarrow> event" where
  "sample_purchase amt =
     \<lparr>event_id = Some ''e1'', user_id = None, session_id = None,
      event_type = Some ''purchase'', timestamp = Some 43200000, amount = Some amt,
      causality_chain = Some (Some [])\<rparr>"

section \<open>Verified properties\<close>

subsection \<open>Circuit breaker\<close>

lemma call_closed_success:
  assumes "state cb = Closed" "func w = (Inr r, w')"
  shows "call cb now tf func w = (Inr r, cb, w')"
  using assms by (simp add: call_def admit_def on_success_def)

lemma call_closed_failure:
  assumes "state cb = Closed" "func w = (Inl e, w')"
  shows "call cb now tf func w = (Inl e, on_failure cb tf, w')"
  using assms by (simp add: call_def admit_def)

lemma call_open_early:
  assumes "state cb = Open" "last_failure_time cb = Some t" "now - t \<le> of_int (timeout cb)"
  shows "call cb now tf func w = (Inl (Exception ''Circuit breaker is open''), cb, w)"
  using assms by (simp add: call_def admit_def)

lemma call_open_late_success:
  assumes "state cb = Open" "last_failure_time cb = Some t" "now - t > of_int (timeout cb)"
    "func w = (Inr r, w')"
  shows "call cb now tf func w = (Inr r, cb\<lparr>state := Closed, failure_count := 0\<rparr>, w')"
  using assms by (simp add: call_def admit_def on_success_def)

lemma call_invoked_failure_trips:
  assumes "admit cb now = Inr cb1" "func w = (Inl e, w')"
    "failure_count cb + 1 \<ge> failure_threshold cb"
  shows "call cb now tf func w =
           (Inl e, cb1\<lparr>failure_count := failure_count cb + 1,
                       last_failure_time := Some tf, state := Open\<rparr>, w')"
proof -
  from assms(1) have fc: "failure_count cb1 = failure_count cb"
    and ft: "failure_threshold cb1 = failure_threshold cb"
    by (auto simp: admit_def split: if_splits option.splits)
  with assms show ?thesis
    by (simp add: call_def on_failure_def Let_def)
qed

lemma call_all_append:
  "call_all cb (cs @ ds) w = (case call_all cb cs w of (cb', w') \<Rightarrow> call_all cb' ds w')"
  by (induction cs arbitrary: cb w) (auto split: prod.splits)

lemma outcome_run_closed:
  assumes "state cb = Closed" "failure_count cb + int (failures os) < failure_threshold cb"
  shows "state (fst (call_all cb (map outcome_call os) n)) = Closed \<and>
         failure_count (fst (call_all cb (map outcome_call os) n))
           = failure_count cb + int (failures os) \<and>
         failure_threshold (fst (call_all cb (map outcome_call os) n)) = failure_threshold cb \<and>
         snd (call_all cb (map outcome_call os) n) = n + length os"
  using assms
proof (induction os arbitrary: cb n)
  case Nil
  then show ?case by (simp add: failures_def)
next
  case (Cons p os)
  show ?case
  proof (cases "snd p")
    case True
    then have step: "call cb (fst p) (fst p) succeeding n = (Inr (), cb, Suc n)"
      using Cons.prems(1) by (intro call_closed_success) (auto simp: succeeding_def)
    have "failures (p # os) = failures os" using True by (simp add: failures_def)
    with Cons.prems have "failure_count cb + int (failures os) < failure_threshold cb" by simp
    from Cons.IH[OF Cons.prems(1) this, of "Suc n"] step True show ?thesis
      by (simp add: outcome_call_def failures_def)
  next
    case False
    let ?cb1 = "on_failure cb (fst p)"
    have step: "call cb (fst p) (fst p) (failing (Exception ''boom'')) n
                  = (Inl (Exception ''boom''), ?cb1, Suc n)"
      using Cons.prems(1) by (intro call_closed_failure) (auto simp: failing_def)
    have f: "failures (p # os) = Suc (failures os)" using False by (simp add: failures_def)
    with Cons.prems have lt: "failure_count cb + 1 < failure_threshold cb" by simp
    then have cb1: "?cb1 = cb\<lparr>failure_count := failure_count cb + 1,
                              last_failure_time := Some (fst p)\<rparr>"
      by (simp add: on_failure_def Let_def)
    have st: "state ?cb1 = Closed" using Cons.prems(1) by (simp add: cb1)
    have "failure_count ?cb1 + int (failures os) < failure_threshold ?cb1"
      using Cons.prems(2) f by (simp add: cb1)
    from Cons.IH[OF st this, of "Suc n"] step False show ?thesis
      by (simp add: outcome_call_def failures_def cb1)
  qed
qed

lemma outcome_run_trips:
  assumes "int (failures os) + 1 = thr"
  shows "state (fst (call_all (CircuitBreaker thr tmo) (map outcome_call (os @ [(t, False)])) n)) = Open \<and>
         failure_count (fst (call_all (CircuitBreaker thr tmo) (map outcome_call (os @ [(t, False)])) n)) = thr \<and>
         last_failure_time (fst (call_all (CircuitBreaker thr tmo) (map outcome_call (os @ [(t, False)])) n)) = Some t \<and>
         snd (call_all (CircuitBreaker thr tmo) (map outcome_call (os @ [(t, False)])) n) = n + length os + 1"
proof -
  let ?cb0 = "CircuitBreaker thr tmo"
  obtain cb' n' where run: "call_all ?cb0 (map outcome_call os) n = (cb', n')"
    by (cases "call_all ?cb0 (map outcome_call os) n")
  have "state ?cb0 = Closed" "failure_count ?cb0 + int (failures os) < failure_threshold ?cb0"
    using assms by (simp_all add: CircuitBreaker_def)
  from outcome_run_closed[OF this, of n] run
  have cb': "state cb' = Closed" "failure_count cb' = int (failures os)"
    "failure_threshold cb' = thr" and n': "n' = n + length os"
    by (simp_all add: CircuitBreaker_def)
  have "call cb' t t (failing (Exception ''boom'')) n'
          = (Inl (Exception ''boom''), on_failure cb' t, Suc n')"
    using cb'(1) by (intro call_closed_failure) (auto simp: failing_def)
  moreover have "state (on_failure cb' t) = Open" "failure_count (on_failure cb' t) = thr"
    "last_failure_time (on_failure cb' t) = Some t"
    using cb' assms by (simp_all add: on_failure_def Let_def)
  ultimately show ?thesis
    using run n' by (simp add: call_all_append outcome_call_def)
qed

lemma failures_all_failed: "failures (map (\<lambda>t. (t, False)) ts) = length ts"
  by (simp add: failures_def)

lemma consecutive_failures_trip:
  assumes "0 < thr" "int (length ts) = thr"
  shows "state (fst (call_all (CircuitBreaker thr tmo)
                  (map outcome_call (map (\<lambda>t. (t, False)) ts)) n)) = Open \<and>
         snd (call_all (CircuitBreaker thr tmo)
                  (map outcome_call (map (\<lambda>t. (t, False)) ts)) n) = n + length ts"
proof -
  from assms have ne: "ts \<noteq> []" by auto
  then have split: "map (\<lambda>t. (t, False)) ts = map (\<lambda>t. (t, False)) (butlast ts) @ [(last ts, False)]"
    by (metis (no_types, lifting) append_butlast_last_id list.simps(8,9) map_append)
  have "int (failures (map (\<lambda>t. (t, False)) (butlast ts))) + 1 = thr"
    using assms ne by (simp add: failures_all_failed)
  from outcome_run_trips[OF this, of tmo "last ts" n] ne show ?thesis
    unfolding split[symmetric] by simp
qed

lemma fewer_failures_stay_closed:
  assumes "int (length ts) < thr"
  shows "state (fst (call_all (CircuitBreaker thr tmo)
                  (map outcome_call (map (\<lambda>t. (t, False)) ts)) n)) = Closed"
proof -
  have "state (CircuitBreaker thr tmo) = Closed"
    "failure_count (CircuitBreaker thr tmo) + int (failures (map (\<lambda>t. (t, False)) ts))
       < failure_threshold (CircuitBreaker thr tmo)"
    using assms by (simp_all add: CircuitBreaker_def failures_all_failed)
  from outcome_run_closed[OF this] show ?thesis by simp
qed

text \<open>
  C5. The breaker trips to \<open>Open\<close> when a failure brings \<open>failure_count\<close> to
  \<open>failure_threshold\<close>: any invoked call that fails with the count then at or above the
  threshold leaves it open, and from a fresh breaker (threshold 5 by default) exactly
  \<open>failure_threshold\<close> consecutive failures do so, fewer do not. While open, a call made
  when no more than \<open>timeout\<close> has passed since \<open>last_failure_time\<close> raises at once,
  whatever the wrapped function is, leaving breaker and world untouched (the function
  is not invoked). A call made after \<open>timeout\<close> has passed invokes the function
  (half-open), and its success closes the breaker and resets \<open>failure_count\<close> to 0.
\<close>

theorem circuit_breaker_trip_block_probe:
  "(admit cb now = Inr cb' \<and> func w = (Inl e, w') \<and>
      failure_threshold cb \<le> failure_count cb + 1 \<longrightarrow>
        call cb now tf func w =
          (Inl e, cb'\<lparr>failure_count := failure_count cb + 1,
                      last_failure_time := Some tf, state := Open\<rparr>, w')) \<and>
   (0 < thr \<and> int (length ts) = thr \<longrightarrow>
      state (fst (call_all (CircuitBreaker thr tmo)
                (map outcome_call (map (\<lambda>t. (t, False)) ts)) n)) = Open \<and>
      snd (call_all (CircuitBreaker thr tmo)
                (map outcome_call (map (\<lambda>t. (t, False)) ts)) n) = n + length ts) \<and>
   (int (length ts) < thr \<longrightarrow>
      state (fst (call_all (CircuitBreaker thr tmo)
                (map outcome_call (map (\<lambda>t. (t, False)) ts)) n)) = Closed) \<and>
   (state cb = Open \<and> last_failure_time cb = Some t \<and> now - t \<le> of_int (timeout cb) \<longrightarrow>
      call cb now tf func w = (Inl (Exception ''Circuit breaker is open''), cb, w)) \<and>
   (state cb = Open \<and> last_failure_time cb = Some t \<and> now - t > of_int (timeout cb) \<and>
      func w = (Inr r, w') \<longrightarrow>
      call cb now tf func w = (Inr r, cb\<lparr>state := Closed, failure_count := 0\<rparr>, w'))"
  using call_invoked_failure_trips[of cb now cb' func w e w' tf]
    consecutive_failures_trip[of thr ts tmo n]
    fewer_failures_stay_closed[of ts thr tmo n]
    call_open_early[of cb t now tf func w]
    call_open_late_success[of cb t now func w r w' tf]
  by blast

theorem circuit_breaker_trip_block_probe_witness:
  "call (CircuitBreaker_default\<lparr>failure_count := 4\<rparr>) 9 10 (failing (Exception ''io'')) 0 =
     (Inl (Exception ''io''),
      CircuitBreaker_default\<lparr>failure_count := 5, last_failure_time := Some 10, state := Open\<rparr>, 1) \<and>
   state (fst (call_all CircuitBreaker_default
      (map outcome_call [(1, False), (2, False), (3, False), (4, False), (5, False)]) 0)) = Open \<and>
   snd (call_all CircuitBreaker_default
      (map outcome_call [(1, False), (2, False), (3, False), (4, False), (5, False)]) 0) = 5 \<and>
   state (fst (call_all CircuitBreaker_default
      (map outcome_call [(1, False), (2, False), (3, False), (4, False)]) 0)) = Closed \<and>
   call tripped_breaker 65 65 succeeding 0
     = (Inl (Exception ''Circuit breaker is open''), tripped_breaker, 0) \<and>
   call tripped_breaker 66 66 succeeding 0
     = (Inr (), tripped_breaker\<lparr>state := Closed, failure_count := 0\<rparr>, 1)"
proof -
  note T = circuit_breaker_trip_block_probe
  have a: "call (CircuitBreaker_default\<lparr>failure_count := 4\<rparr>) 9 10 (failing (Exception ''io'')) 0 =
     (Inl (Exception ''io''),
      CircuitBreaker_default\<lparr>failure_count := 5, last_failure_time := Some 10, state := Open\<rparr>, 1)"
    using T[where cb = "CircuitBreaker_default\<lparr>failure_count := 4\<rparr>"
          and now = 9 and cb' = "CircuitBreaker_default\<lparr>failure_count := 4\<rparr>"
          and func = "failing (Exception ''io'')" and w = 0 and e = "Exception ''io''" and w' = 1
          and tf = 10, THEN conjunct1]
    by (simp add: CircuitBreaker_default_def CircuitBreaker_def admit_def failing_def)
  have b: "state (fst (call_all CircuitBreaker_default
      (map outcome_call [(1, False), (2, False), (3, False), (4, False), (5, False)]) 0)) = Open \<and>
   snd (call_all CircuitBreaker_default
      (map outcome_call [(1, False), (2, False), (3, False), (4, False), (5, False)]) 0) = 5"
    using T[where thr = 5 and ts = "[1, 2, 3, 4, 5]"
          and tmo = 60 and n = 0, THEN conjunct2, THEN conjunct1]
    by (simp add: CircuitBreaker_default_def)
  have c: "state (fst (call_all CircuitBreaker_default
      (map outcome_call [(1, False), (2, False), (3, False), (4, False)]) 0)) = Closed"
    using T[where thr = 5 and ts = "[1, 2, 3, 4]" and tmo = 60 and n = 0,
          THEN conjunct2, THEN conjunct2, THEN conjunct1]
    by (simp add: CircuitBreaker_default_def)
  have d: "call tripped_breaker 65 65 succeeding 0 =
             (Inl (Exception ''Circuit breaker is open''), tripped_breaker, 0)"
    using T[where cb = tripped_breaker and t = 5 and now = 65,
          THEN conjunct2, THEN conjunct2, THEN conjunct2, THEN conjunct1]
    by (simp add: tripped_breaker_def)
  have e: "call tripped_breaker 66 66 succeeding 0 =
             (Inr (), tripped_breaker\<lparr>state := Closed, failure_count := 0\<rparr>, 1)"
    using T[where cb = tripped_breaker and t = 5 and now = 66 and func = succeeding and w = 0
          and r = "()" and w' = 1,
          THEN conjunct2, THEN conjunct2, THEN conjunct2, THEN conjunct2]
    by (simp add: tripped_breaker_def succeeding_def)
  from a b c d e show ?thesis by blast
qed

text \<open>
  C10. A successful call in the \<open>Closed\<close> state leaves the breaker as it is, so
  \<open>failure_count\<close> is not reset, and a failed call there adds one to it; failures
  therefore accumulate across interleaved
  successes: from a fresh breaker, any sequence of outcomes holding fewer failures than
  the threshold leaves it closed with \<open>failure_count\<close> equal to the number of failures
  so far, and the failure that brings that number to the threshold opens it.
\<close>

theorem closed_success_keeps_failure_count:
  "(state cb = Closed \<and> func w = (Inr r, w') \<longrightarrow>
      call cb now tf func w = (Inr r, cb, w')) \<and>
   (state cb = Closed \<and> func w = (Inl e, w') \<longrightarrow>
      failure_count (fst (snd (call cb now tf func w))) = failure_count cb + 1) \<and>
   (int (failures os) < thr \<longrightarrow>
      state (fst (call_all (CircuitBreaker thr tmo) (map outcome_call os) n)) = Closed \<and>
      failure_count (fst (call_all (CircuitBreaker thr tmo) (map outcome_call os) n))
        = int (failures os)) \<and>
   (int (failures os) + 1 = thr \<longrightarrow>
      state (fst (call_all (CircuitBreaker thr tmo)
                (map outcome_call (os @ [(t, False)])) n)) = Open \<and>
      failure_count (fst (call_all (CircuitBreaker thr tmo)
                (map outcome_call (os @ [(t, False)])) n)) = thr)"
proof -
  have "int (failures os) < thr \<Longrightarrow>
      state (fst (call_all (CircuitBreaker thr tmo) (map outcome_call os) n)) = Closed \<and>
      failure_count (fst (call_all (CircuitBreaker thr tmo) (map outcome_call os) n))
        = int (failures os)"
    using outcome_run_closed[of "CircuitBreaker thr tmo" os n]
    by (simp add: CircuitBreaker_def)
  moreover have "state cb = Closed \<Longrightarrow> func w = (Inl e, w') \<Longrightarrow>
      failure_count (fst (snd (call cb now tf func w))) = failure_count cb + 1"
    by (simp add: call_closed_failure on_failure_def Let_def)
  ultimately show ?thesis
    using call_closed_success[of cb func w r w' now tf] outcome_run_trips[of os thr tmo t n]
    by blast
qed

theorem closed_success_keeps_failure_count_witness:
  "call (CircuitBreaker_default\<lparr>failure_count := 4\<rparr>) 9 10 succeeding 0 =
     (Inr (), CircuitBreaker_default\<lparr>failure_count := 4\<rparr>, 1) \<and>
   state (fst (call_all CircuitBreaker_default (map outcome_call
      [(1, False), (2, True), (3, False), (4, True), (5, False), (6, True), (7, False), (8, True)])
      0)) = Closed \<and>
   failure_count (fst (call_all CircuitBreaker_default (map outcome_call
      [(1, False), (2, True), (3, False), (4, True), (5, False), (6, True), (7, False), (8, True)])
      0)) = 4 \<and>
   state (fst (call_all CircuitBreaker_default (map outcome_call
      ([(1, False), (2, True), (3, False), (4, True), (5, False), (6, True), (7, False), (8, True)]
        @ [(9, False)])) 0)) = Open"
  using closed_success_keeps_failure_count[where cb = "CircuitBreaker_default\<lparr>failure_count := 4\<rparr>"
      and func = succeeding and w = 0 and r = "()" and w' = 1 and now = 9 and tf = 10
      and thr = 5 and tmo = 60 and n = 0 and t = 9
      and os = "[(1, False), (2, True), (3, False), (4, True), (5, False), (6, True), (7, False), (8, True)]"]
  by (simp add: CircuitBreaker_default_def CircuitBreaker_def failures_def succeeding_def)

subsection \<open>Adaptive rate limiter\<close>

lemma adjust_rate_shrink:
  assumes "of_int (error_count rl) > of_int (success_count rl) * (1 / 10 :: rat)"
  shows "current_rate (adjust_rate rl)
           = max (current_rate rl * (8 / 10)) (of_int (base_rate rl) * (1 / 10))"
  using assms by (simp add: adjust_rate_def Let_def)

lemma adjust_rate_grow:
  assumes "\<not> of_int (error_count rl) > of_int (success_count rl) * (1 / 10 :: rat)"
    "of_int (error_count rl) < of_int (success_count rl) * (1 / 100 :: rat)"
  shows "current_rate (adjust_rate rl)
           = min (current_rate rl * (11 / 10)) (of_int (base_rate rl) * 2)"
  using assms by (simp add: adjust_rate_def Let_def)

lemma adjust_rate_resets:
  "success_count (adjust_rate rl) = 0 \<and> error_count (adjust_rate rl) = 0 \<and>
   base_rate (adjust_rate rl) = base_rate rl"
  by (simp add: adjust_rate_def Let_def)

lemma ratio_above_tenth:
  assumes "0 < success_count rl" "error_ratio rl > 1 / 10"
  shows "of_int (error_count rl) > of_int (success_count rl) * (1 / 10 :: rat)"
proof -
  have pos: "(0::rat) < of_int (success_count rl)" using assms(1) by simp
  from assms(2) have "1 / 10 < (of_int (error_count rl) :: rat) / of_int (success_count rl)"
    by (simp add: error_ratio_def)
  then have "(1 / 10 :: rat) * of_int (success_count rl) < of_int (error_count rl)"
    using pos by (simp add: pos_less_divide_eq)
  then show ?thesis by (simp add: mult.commute)
qed

lemma ratio_below_hundredth:
  assumes "0 < success_count rl" "error_ratio rl < 1 / 100"
  shows "\<not> of_int (error_count rl) > of_int (success_count rl) * (1 / 10 :: rat)"
    and "of_int (error_count rl) < of_int (success_count rl) * (1 / 100 :: rat)"
proof -
  have pos: "(0::rat) < of_int (success_count rl)" using assms(1) by simp
  from assms(2) have "(of_int (error_count rl) :: rat) / of_int (success_count rl) < 1 / 100"
    by (simp add: error_ratio_def)
  then have lt: "(of_int (error_count rl) :: rat) < (1 / 100) * of_int (success_count rl)"
    using pos by (simp add: pos_divide_less_eq)
  then show "of_int (error_count rl) < of_int (success_count rl) * (1 / 100 :: rat)"
    by (simp add: mult.commute)
  from lt pos show "\<not> of_int (error_count rl) > of_int (success_count rl) * (1 / 10 :: rat)"
    by simp
qed

lemma share_above_tenth:
  assumes "0 < error_count rl + success_count rl" "error_share rl > 1 / 10"
  shows "of_int (error_count rl) > of_int (success_count rl) * (1 / 10 :: rat)"
proof -
  let ?e = "of_int (error_count rl) :: rat" and ?s = "of_int (success_count rl) :: rat"
  from assms(1) have "of_int (error_count rl + success_count rl) > (0::rat)"
    by (simp only: of_int_0_less_iff)
  then have pos: "0 < ?e + ?s" by simp
  from assms(2) have "1 / 10 < ?e / (?e + ?s)" by (simp add: error_share_def)
  then have "(1 / 10) * (?e + ?s) < ?e" using pos by (simp add: pos_less_divide_eq)
  with pos show ?thesis by simp
qed

lemma share_half_percent:
  assumes "0 < error_count rl + success_count rl" "error_share rl = 5 / 1000"
  shows "\<not> of_int (error_count rl) > of_int (success_count rl) * (1 / 10 :: rat)"
    and "of_int (error_count rl) < of_int (success_count rl) * (1 / 100 :: rat)"
proof -
  let ?e = "of_int (error_count rl) :: rat" and ?s = "of_int (success_count rl) :: rat"
  from assms(1) have "of_int (error_count rl + success_count rl) > (0::rat)"
    by (simp only: of_int_0_less_iff)
  then have pos: "0 < ?e + ?s" by simp
  from assms(2) have "?e / (?e + ?s) = 5 / 1000" by (simp add: error_share_def)
  then have "?e = (5 / 1000) * (?e + ?s)" using pos by (simp add: field_simps)
  then have e: "?e * 199 = ?s" by simp
  with pos have "0 < ?e" by simp
  with e show "\<not> ?e > ?s * (1 / 10)" and "?e < ?s * (1 / 100)" by simp_all
qed

lemma shrink_decreases:
  fixes c b :: rat
  assumes "0 < c" "b * (1 / 10) < c"
  shows "max (c * (8 / 10)) (b * (1 / 10)) < c"
  using assms by simp

lemma grow_increases:
  fixes c b :: rat
  assumes "0 < c" "c < b * 2"
  shows "c < min (c * (11 / 10)) (b * 2)" "min (c * (11 / 10)) (b * 2) \<le> b * 2"
  using assms by simp_all

text \<open>
  C6. An adjustment happens in \<^verbatim>\<open>should_allow\<close> when more than 10 seconds have passed
  since the last one. With the error ratio read as \<^verbatim>\<open>_adjust_rate\<close> compares the counts
  (errors per success): a ratio above 10% sets \<open>current_rate\<close> to the larger of 0.8
  times itself and 10% of \<open>base_rate\<close>; a ratio below 1% sets it to the smaller of 1.1
  times itself and 200% of \<open>base_rate\<close>; both counts are zero after every adjustment.
  In particular a ratio of 15% strictly decreases a positive rate that is above the
  floor, and a ratio of 0.5% strictly increases a positive rate that is below the
  ceiling, never beyond twice \<open>base_rate\<close>. Read as a share of all outcomes, an error
  ratio above 10% shrinks the rate in the same way and one of 0.5% grows it.
\<close>

theorem rate_limiter_adjustment:
  "(now - last_adjustment rl > 10 \<longrightarrow>
      snd (should_allow rl now u) = (adjust_rate rl)\<lparr>last_adjustment := now\<rparr>) \<and>
   (0 < success_count rl \<and> error_ratio rl > 1 / 10 \<longrightarrow>
      current_rate (adjust_rate rl)
        = max (current_rate rl * (8 / 10)) (of_int (base_rate rl) * (1 / 10))) \<and>
   (0 < success_count rl \<and> error_ratio rl < 1 / 100 \<longrightarrow>
      current_rate (adjust_rate rl)
        = min (current_rate rl * (11 / 10)) (of_int (base_rate rl) * 2)) \<and>
   success_count (adjust_rate rl) = 0 \<and> error_count (adjust_rate rl) = 0 \<and>
   (0 < success_count rl \<and> error_ratio rl = 15 / 100 \<and> 0 < current_rate rl \<and>
      of_int (base_rate rl) * (1 / 10) < current_rate rl \<longrightarrow>
      current_rate (adjust_rate rl) < current_rate rl) \<and>
   (0 < success_count rl \<and> error_ratio rl = 5 / 1000 \<and> 0 < current_rate rl \<and>
      current_rate rl < of_int (base_rate rl) * 2 \<longrightarrow>
      current_rate rl < current_rate (adjust_rate rl) \<and>
      current_rate (adjust_rate rl) \<le> of_int (base_rate rl) * 2) \<and>
   (0 < error_count rl + success_count rl \<and> error_share rl > 1 / 10 \<longrightarrow>
      current_rate (adjust_rate rl)
        = max (current_rate rl * (8 / 10)) (of_int (base_rate rl) * (1 / 10))) \<and>
   (0 < error_count rl + success_count rl \<and> error_share rl = 5 / 1000 \<longrightarrow>
      current_rate (adjust_rate rl)
        = min (current_rate rl * (11 / 10)) (of_int (base_rate rl) * 2))"
proof -
  have a: "now - last_adjustment rl > 10 \<Longrightarrow>
      snd (should_allow rl now u) = (adjust_rate rl)\<lparr>last_adjustment := now\<rparr>"
    by (simp add: should_allow_def Let_def)
  have b: "0 < success_count rl \<Longrightarrow> error_ratio rl > 1 / 10 \<Longrightarrow>
      current_rate (adjust_rate rl)
        = max (current_rate rl * (8 / 10)) (of_int (base_rate rl) * (1 / 10))"
    by (rule adjust_rate_shrink) (rule ratio_above_tenth)
  have c: "0 < success_count rl \<Longrightarrow> error_ratio rl < 1 / 100 \<Longrightarrow>
      current_rate (adjust_rate rl)
        = min (current_rate rl * (11 / 10)) (of_int (base_rate rl) * 2)"
    by (rule adjust_rate_grow) (rule ratio_below_hundredth, assumption+)+
  have d: "0 < success_count rl \<Longrightarrow> error_ratio rl = 15 / 100 \<Longrightarrow> 0 < current_rate rl \<Longrightarrow>
      of_int (base_rate rl) * (1 / 10) < current_rate rl \<Longrightarrow>
      current_rate (adjust_rate rl) < current_rate rl"
    using b shrink_decreases[of "current_rate rl" "of_int (base_rate rl)"] by simp
  have e: "0 < success_count rl \<Longrightarrow> error_ratio rl = 5 / 1000 \<Longrightarrow> 0 < current_rate rl \<Longrightarrow>
      current_rate rl < of_int (base_rate rl) * 2 \<Longrightarrow>
      current_rate rl < current_rate (adjust_rate rl) \<and>
      current_rate (adjust_rate rl) \<le> of_int (base_rate rl) * 2"
    using c grow_increases[of "current_rate rl" "of_int (base_rate rl)"] by simp
  have f: "0 < error_count rl + success_count rl \<Longrightarrow> error_share rl > 1 / 10 \<Longrightarrow>
      current_rate (adjust_rate rl)
        = max (current_rate rl * (8 / 10)) (of_int (base_rate rl) * (1 / 10))"
    by (rule adjust_rate_shrink) (rule share_above_tenth)
  have g: "0 < error_count rl + success_count rl \<Longrightarrow> error_share rl = 5 / 1000 \<Longrightarrow>
      current_rate (adjust_rate rl)
        = min (current_rate rl * (11 / 10)) (of_int (base_rate rl) * 2)"
    by (rule adjust_rate_grow) (rule share_half_percent, assumption+)+
  from a b c d e f g adjust_rate_resets[of rl] show ?thesis by blast
qed

theorem rate_limiter_adjustment_witness:
  "snd (should_allow ((AdaptiveRateLimiter 1000 0)\<lparr>success_count := 100, error_count := 15\<rparr>) 11 0)
     = \<lparr>base_rate = 1000, current_rate = 800, success_count = 0, error_count = 0,
        last_adjustment = 11\<rparr> \<and>
   current_rate (adjust_rate ((AdaptiveRateLimiter 1000 0)\<lparr>success_count := 100, error_count := 15\<rparr>))
     = 800 \<and>
   current_rate (adjust_rate ((AdaptiveRateLimiter 1000 0)\<lparr>success_count := 1000, error_count := 5\<rparr>))
     = 1100 \<and>
   current_rate (adjust_rate ((AdaptiveRateLimiter 1000 0)
      \<lparr>current_rate := 1900, success_count := 1000, error_count := 5\<rparr>)) = 2000 \<and>
   current_rate (adjust_rate ((AdaptiveRateLimiter 1000 0)\<lparr>success_count := 995, error_count := 5\<rparr>))
     = 1100"
proof -
  note T = rate_limiter_adjustment
  let ?r15 = "(AdaptiveRateLimiter 1000 0)\<lparr>success_count := 100, error_count := 15\<rparr>"
  let ?r05 = "(AdaptiveRateLimiter 1000 0)\<lparr>success_count := 1000, error_count := 5\<rparr>"
  let ?r19 = "(AdaptiveRateLimiter 1000 0)
      \<lparr>current_rate := 1900, success_count := 1000, error_count := 5\<rparr>"
  have b: "current_rate (adjust_rate ?r15) = 800"
    using T[where rl = ?r15, THEN conjunct2, THEN conjunct1]
    by (simp add: AdaptiveRateLimiter_def error_ratio_def)
  have c: "current_rate (adjust_rate ?r05) = 1100"
    using T[where rl = ?r05, THEN conjunct2, THEN conjunct2, THEN conjunct1]
    by (simp add: AdaptiveRateLimiter_def error_ratio_def)
  have c': "current_rate (adjust_rate ?r19) = 2000"
    using T[where rl = ?r19, THEN conjunct2, THEN conjunct2, THEN conjunct1]
    by (simp add: AdaptiveRateLimiter_def error_ratio_def)
  have r: "success_count (adjust_rate ?r15) = 0" "error_count (adjust_rate ?r15) = 0"
    using T[where rl = ?r15] by blast+
  have a: "snd (should_allow ?r15 11 0) = (adjust_rate ?r15)\<lparr>last_adjustment := 11\<rparr>"
    using T[where rl = ?r15 and now = 11 and u = 0, THEN conjunct1]
    by (simp add: AdaptiveRateLimiter_def)
  have d: "current_rate (adjust_rate ?r15) < current_rate ?r15"
    using T[where rl = ?r15, THEN conjunct2, THEN conjunct2, THEN conjunct2, THEN conjunct2,
        THEN conjunct2, THEN conjunct1]
    by (simp add: AdaptiveRateLimiter_def error_ratio_def)
  have e: "current_rate ?r05 < current_rate (adjust_rate ?r05)"
    using T[where rl = ?r05, THEN conjunct2, THEN conjunct2, THEN conjunct2, THEN conjunct2,
        THEN conjunct2, THEN conjunct2, THEN conjunct1]
    by (simp add: AdaptiveRateLimiter_def error_ratio_def)
  have "(adjust_rate ?r15)\<lparr>last_adjustment := 11\<rparr>
          = \<lparr>base_rate = 1000, current_rate = 800, success_count = 0, error_count = 0,
             last_adjustment = 11\<rparr>"
    using b r by (simp add: adjust_rate_def AdaptiveRateLimiter_def Let_def)
  moreover have f: "current_rate (adjust_rate ?r15) = 800"
    using T[where rl = ?r15, THEN conjunct2, THEN conjunct2, THEN conjunct2, THEN conjunct2,
        THEN conjunct2, THEN conjunct2, THEN conjunct2, THEN conjunct1]
    by (simp add: AdaptiveRateLimiter_def error_share_def)
  moreover have g: "current_rate (adjust_rate
      ((AdaptiveRateLimiter 1000 0)\<lparr>success_count := 995, error_count := 5\<rparr>)) = 1100"
    using T[where rl = "(AdaptiveRateLimiter 1000 0)\<lparr>success_count := 995, error_count := 5\<rparr>",
        THEN conjunct2, THEN conjunct2, THEN conjunct2, THEN conjunct2,
        THEN conjunct2, THEN conjunct2, THEN conjunct2, THEN conjunct2]
    by (simp add: AdaptiveRateLimiter_def error_share_def)
  ultimately show ?thesis using a b c c' d e by simp
qed

subsection \<open>Complex event processor: the buffers handed to the detectors\<close>

text \<open>
  Once the clock is at least 1800 seconds past the epoch, trimming removes every event
  without a timestamp, so the detectors only see events that carry one.
\<close>

lemma trimmed_buffer_timestamps:
  assumes "1800 \<le> now"
  shows "\<forall>x \<in> set (trimmed_buffer pb now e). timestamp x \<noteq> None"
  using assms by (auto simp: trimmed_buffer_def timestamp_or_0_def split: option.splits)

lemma cep_process_event_buffer:
  "snd (cep_process_event pb now now1 now2 e) (buffer_key e) = trimmed_buffer pb now e"
  by (simp add: cep_process_event_def Let_def split: sum.splits)

subsection \<open>Complex event processor: funnel\<close>

lemma index_Some_iff: "index xs x = Some i \<longleftrightarrow> first_occurrence xs x i"
proof (induction xs arbitrary: i)
  case Nil
  then show ?case by (simp add: first_occurrence_def)
next
  case (Cons y ys)
  show ?case
  proof (cases "y = x")
    case True
    then show ?thesis by (auto simp: first_occurrence_def)
  next
    case False
    show ?thesis
    proof (cases i)
      case 0
      with False show ?thesis by (auto simp: first_occurrence_def)
    next
      case (Suc k)
      have "first_occurrence (y # ys) x (Suc k) \<longleftrightarrow> first_occurrence ys x k"
        using False
        by (auto simp: first_occurrence_def less_Suc_eq_0_disj)
      with Cons.IH[of k] False Suc show ?thesis by auto
    qed
  qed
qed

lemma index_None_iff: "index xs x = None \<longleftrightarrow> x \<notin> set xs"
  by (induction xs) auto

lemma first_occurrence_unique:
  "first_occurrence xs x i \<Longrightarrow> first_occurrence xs x j \<Longrightarrow> i = j"
  by (metis index_Some_iff option.inject)

lemma first_occurrence_mem: "first_occurrence xs x i \<Longrightarrow> x \<in> set xs"
  by (auto simp: first_occurrence_def)

lemma funnel_not_fire:
  assumes "\<not> funnel_order events"
  shows "detect_purchase_funnel events = Inr None"
  using assms
  unfolding detect_purchase_funnel_def funnel_order_def Let_def
  by (auto simp: index_Some_iff split: option.splits)

lemma funnel_fire:
  assumes "first_occurrence (map event_type events) (Some ''page_view'') v"
    "first_occurrence (map event_type events) (Some ''click'') c"
    "first_occurrence (map event_type events) (Some ''purchase'') p"
    "v < c" "c < p"
  shows "detect_purchase_funnel events =
           (case timestamp (events ! p) of
              None \<Rightarrow> Inl (KeyError ''timestamp'')
            | Some tp \<Rightarrow>
                (case timestamp (events ! v) of
                   None \<Rightarrow> Inl (KeyError ''timestamp'')
                 | Some tv \<Rightarrow>
                     Inr (Some \<lparr>funnel_completed = True, conversion_time = tp - tv,
                                steps = length (remdups (map event_type events))\<rparr>)))"
proof -
  from assms(1-3) have idx: "index (map event_type events) (Some ''page_view'') = Some v"
    "index (map event_type events) (Some ''click'') = Some c"
    "index (map event_type events) (Some ''purchase'') = Some p"
    by (simp_all add: index_Some_iff)
  from assms(1-3) have mem: "Some ''page_view'' \<in> set (map event_type events)"
    "Some ''click'' \<in> set (map event_type events)"
    "Some ''purchase'' \<in> set (map event_type events)"
    by (blast dest: first_occurrence_mem)+
  show ?thesis
    using assms(4,5) mem
    unfolding detect_purchase_funnel_def Let_def idx
    by (simp add: subscript_timestamp_def split: option.splits)
qed

text \<open>
  C8. On a buffer whose events all carry a timestamp (as do all buffers the processor
  hands to the detectors once the clock is 1800 seconds past the epoch, since trimming
  drops the others), the funnel detector fires exactly
  when \<open>page_view\<close>, \<open>click\<close> and \<open>purchase\<close> each occur and their first positions are
  strictly increasing in that order; without that order it returns nothing. Whenever it
  fires, the reported \<open>conversion_time\<close> is the timestamp of the first purchase minus
  the timestamp of the first page view. The buffer page view, click, purchase (at
  \<open>t0\<close>, \<open>t1\<close>, \<open>t2\<close>) fires with \<open>t2 - t0\<close>; the buffer click, page view, purchase
  does not fire.
\<close>

theorem funnel_fires_iff_ordered:
  "((\<forall>e \<in> set events. timestamp e \<noteq> None) \<longrightarrow>
      fires (detect_purchase_funnel events) = funnel_order events) \<and>
   (\<not> funnel_order events \<longrightarrow> detect_purchase_funnel events = Inr None) \<and>
   (detect_purchase_funnel events = Inr (Some r) \<longrightarrow>
      (\<exists>v p tv tp.
         first_occurrence (map event_type events) (Some ''page_view'') v \<and>
         first_occurrence (map event_type events) (Some ''purchase'') p \<and>
         timestamp (events ! v) = Some tv \<and> timestamp (events ! p) = Some tp \<and>
         conversion_time r = tp - tv)) \<and>
   (event_type e0 = Some ''page_view'' \<and> event_type e1 = Some ''click'' \<and>
    event_type e2 = Some ''purchase'' \<and>
    timestamp e0 = Some t0 \<and> timestamp e1 = Some t1 \<and> timestamp e2 = Some t2 \<longrightarrow>
      detect_purchase_funnel [e0, e1, e2] =
        Inr (Some \<lparr>funnel_completed = True, conversion_time = t2 - t0, steps = 3\<rparr>) \<and>
      detect_purchase_funnel [e1, e0, e2] = Inr None) \<and>
   (1800 \<le> now \<longrightarrow>
      fires (detect_purchase_funnel (trimmed_buffer pb now e))
        = funnel_order (trimmed_buffer pb now e))"
proof -
  have A: "fires (detect_purchase_funnel events) = funnel_order events"
    if ts: "\<forall>e \<in> set events. timestamp e \<noteq> None" for events
  proof (cases "funnel_order events")
    case False
    then show ?thesis by (simp add: funnel_not_fire fires_def)
  next
    case True
    then obtain v c p where
      occ: "first_occurrence (map event_type events) (Some ''page_view'') v"
        "first_occurrence (map event_type events) (Some ''click'') c"
        "first_occurrence (map event_type events) (Some ''purchase'') p"
        "v < c" "c < p"
      unfolding funnel_order_def by blast
    from occ(1,3) have "v < length events" "p < length events"
      by (simp_all add: first_occurrence_def)
    with ts have "timestamp (events ! v) \<noteq> None" "timestamp (events ! p) \<noteq> None"
      by simp_all
    with True funnel_fire[OF occ] show ?thesis
      by (auto simp: fires_def)
  qed
  have C: "\<exists>v p tv tp.
         first_occurrence (map event_type events) (Some ''page_view'') v \<and>
         first_occurrence (map event_type events) (Some ''purchase'') p \<and>
         timestamp (events ! v) = Some tv \<and> timestamp (events ! p) = Some tp \<and>
         conversion_time r = tp - tv"
    if res: "detect_purchase_funnel events = Inr (Some r)"
  proof -
    from res funnel_not_fire[of events] have "funnel_order events" by auto
    then obtain v c p where
      occ: "first_occurrence (map event_type events) (Some ''page_view'') v"
        "first_occurrence (map event_type events) (Some ''click'') c"
        "first_occurrence (map event_type events) (Some ''purchase'') p"
        "v < c" "c < p"
      unfolding funnel_order_def by blast
    from funnel_fire[OF occ] res obtain tv tp where
      "timestamp (events ! v) = Some tv" "timestamp (events ! p) = Some tp"
      "conversion_time r = tp - tv"
      by (auto split: option.splits)
    with occ(1,3) show ?thesis by blast
  qed
  have D: "detect_purchase_funnel [e0, e1, e2] =
        Inr (Some \<lparr>funnel_completed = True, conversion_time = t2 - t0, steps = 3\<rparr>) \<and>
      detect_purchase_funnel [e1, e0, e2] = Inr None"
    if "event_type e0 = Some ''page_view''" "event_type e1 = Some ''click''"
      "event_type e2 = Some ''purchase''"
      "timestamp e0 = Some t0" "timestamp e1 = Some t1" "timestamp e2 = Some t2"
    using that by (simp add: detect_purchase_funnel_def subscript_timestamp_def)
  have E: "fires (detect_purchase_funnel (trimmed_buffer pb now e))
        = funnel_order (trimmed_buffer pb now e)" if "1800 \<le> now"
    by (rule A) (rule trimmed_buffer_timestamps[OF that])
  from A[of events] C D E funnel_not_fire[of events] show ?thesis by blast
qed

theorem funnel_fires_iff_ordered_witness:
  "fires (detect_purchase_funnel [sample_event ''page_view'' 10, sample_event ''click'' 20,
                 sample_event ''purchase'' 30]) \<and>
   detect_purchase_funnel [sample_event ''page_view'' 10, sample_event ''click'' 20,
                 sample_event ''purchase'' 30]
     = Inr (Some \<lparr>funnel_completed = True, conversion_time = 20, steps = 3\<rparr>) \<and>
   detect_purchase_funnel [sample_event ''click'' 20, sample_event ''page_view'' 10,
                 sample_event ''purchase'' 30] = Inr None"
proof -
  note T = funnel_fires_iff_ordered
  let ?good = "[sample_event ''page_view'' 10, sample_event ''click'' 20,
                 sample_event ''purchase'' 30]"
  let ?bad = "[sample_event ''click'' 20, sample_event ''page_view'' 10,
                 sample_event ''purchase'' 30]"
  have ts: "\<forall>e \<in> set ?good. timestamp e \<noteq> None" "\<forall>e \<in> set ?bad. timestamp e \<noteq> None"
    by (simp_all add: sample_event_def)
  have d: "detect_purchase_funnel ?good
             = Inr (Some \<lparr>funnel_completed = True, conversion_time = 20, steps = 3\<rparr>) \<and>
           detect_purchase_funnel ?bad = Inr None"
    using T[where ?e0.0 = "sample_event ''page_view'' 10" and ?e1.0 = "sample_event ''click'' 20"
        and ?e2.0 = "sample_event ''purchase'' 30" and ?t0.0 = 10 and ?t1.0 = 20 and ?t2.0 = 30,
        THEN conjunct2, THEN conjunct2, THEN conjunct2, THEN conjunct1]
    by (simp add: sample_event_def)
  have a: "funnel_order ?good"
    using T[where events = ?good, THEN conjunct1] ts(1) d by (simp add: fires_def)
  have b: "\<not> funnel_order ?bad"
    using T[where events = ?bad, THEN conjunct1] ts(2) d by (simp add: fires_def)
  have b': "detect_purchase_funnel ?bad = Inr None"
    using T[where events = ?bad, THEN conjunct2, THEN conjunct1] b by simp
  have c: "\<exists>v p tv tp.
         first_occurrence (map event_type ?good) (Some ''page_view'') v \<and>
         first_occurrence (map event_type ?good) (Some ''purchase'') p \<and>
         timestamp (?good ! v) = Some tv \<and> timestamp (?good ! p) = Some tp \<and>
         (20::int) = tp - tv"
    using T[where events = ?good
        and r = "\<lparr>funnel_completed = True, conversion_time = 20, steps = 3\<rparr>",
        THEN conjunct2, THEN conjunct2, THEN conjunct1] d by simp
  have f: "fires (detect_purchase_funnel ?good)"
    using T[where events = ?good, THEN conjunct1] ts(1) a by simp
  from f b' d show ?thesis by blast
qed

subsection \<open>Complex event processor: rapid purchases\<close>

lemma arrival_diffs_Cons2:
  "arrival_diffs_ms (a # b # rest) = (the (timestamp b) - the (timestamp a)) # arrival_diffs_ms (b # rest)"
proof -
  have "[0..<Suc (length rest)] = 0 # map Suc [0..<length rest]"
    by (simp add: upt_conv_Cons map_Suc_upt del: upt_Suc)
  then show ?thesis
    by (simp add: arrival_diffs_ms_def comp_def del: upt_Suc)
qed

lemma arrival_diffs_short: "length ps < 2 \<Longrightarrow> arrival_diffs_ms ps = []"
  by (simp add: arrival_diffs_ms_def)

lemma time_diffs_Inr:
  "time_diffs ps = Inr ds \<Longrightarrow> ds = map (\<lambda>g. of_int g / 1000) (arrival_diffs_ms ps)"
proof (induction ps arbitrary: ds rule: time_diffs.induct)
  case (1 a b rest)
  then show ?case
    by (auto simp: arrival_diffs_Cons2 subscript_timestamp_def split: option.splits sum.splits)
qed (simp_all add: arrival_diffs_short)

lemma time_diffs_raises:
  "time_diffs ps = Inl e \<Longrightarrow> e = KeyError ''timestamp'' \<and> (\<exists>p \<in> set ps. timestamp p = None)"
proof (induction ps rule: time_diffs.induct)
  case (1 a b rest)
  then show ?case
    by (auto simp: subscript_timestamp_def split: option.splits sum.splits)
qed simp_all

lemma time_diffs_total:
  assumes "\<forall>e \<in> set ps. timestamp e \<noteq> None"
  shows "\<exists>ds. time_diffs ps = Inr ds"
proof (cases "time_diffs ps")
  case (Inl e)
  from time_diffs_raises[OF this] assms show ?thesis by blast
next
  case (Inr ds)
  then show ?thesis by blast
qed

lemma list_all_seconds:
  "list_all (\<lambda>d. d < 60) (map (\<lambda>g. rat_of_int g / 1000) gs) \<longleftrightarrow> (\<forall>g \<in> set gs. g < 60000)"
proof -
  have "rat_of_int g / 1000 < 60 \<longleftrightarrow> g < 60000" for g
  proof -
    have "rat_of_int g / 1000 < 60 \<longleftrightarrow> rat_of_int g < rat_of_int 60000" by simp
    also have "\<dots> \<longleftrightarrow> g < 60000" by (simp only: of_int_less_iff)
    finally show ?thesis .
  qed
  then show ?thesis by (simp add: list_all_iff)
qed

text \<open>
  What the detector decides, in its own terms. On a buffer whose events all carry a
  timestamp (as do all buffers the processor hands to the detectors once the clock is
  1800 seconds past the epoch), it fires exactly when the buffer holds at least three
  purchases and each of the signed differences between a purchase and its predecessor
  in buffer order is below 60000 ms. Whenever it fires it reports the number of
  purchases and the mean of those differences, in seconds.
\<close>

theorem fraud_fires_iff_diffs_below:
  "((\<forall>e \<in> set events. timestamp e \<noteq> None) \<longrightarrow>
      fires (detect_fraud_pattern events)
        = (3 \<le> length (purchases_of events) \<and>
           (\<forall>g \<in> set (arrival_diffs_ms (purchases_of events)). g < 60000))) \<and>
   (detect_fraud_pattern events = Inr (Some r) \<longrightarrow>
      purchase_count r = length (purchases_of events) \<and>
      avg_time_between r = mean (map (\<lambda>g. of_int g / 1000) (arrival_diffs_ms (purchases_of events)))) \<and>
   (event_type p1 = Some ''purchase'' \<and> event_type p2 = Some ''purchase'' \<and>
    event_type p3 = Some ''purchase'' \<and> timestamp p1 = Some t \<and>
    timestamp p2 = Some (t + 59999) \<and> timestamp p3 = Some (t + 119998) \<longrightarrow>
      detect_fraud_pattern [p1, p2, p3] =
        Inr (Some \<lparr>rapid_purchases = True, purchase_count = 3,
                   avg_time_between = 59999 / 1000\<rparr>)) \<and>
   (event_type p1 = Some ''purchase'' \<and> event_type p2 = Some ''purchase'' \<and>
    event_type p3 = Some ''purchase'' \<and> timestamp p1 = Some t1 \<and>
    timestamp p2 = Some t2 \<and> timestamp p3 = Some t3 \<and>
    (t2 - t1 \<ge> 60000 \<or> t3 - t2 \<ge> 60000) \<longrightarrow>
      detect_fraud_pattern [p1, p2, p3] = Inr None) \<and>
   (1800 \<le> now \<longrightarrow>
      fires (detect_fraud_pattern (trimmed_buffer pb now e))
        = (3 \<le> length (purchases_of (trimmed_buffer pb now e)) \<and>
           (\<forall>g \<in> set (arrival_diffs_ms (purchases_of (trimmed_buffer pb now e))). g < 60000)))"
proof -
  let ?ps = "purchases_of events"
  have A: "fires (detect_fraud_pattern events)
        = (3 \<le> length (purchases_of events) \<and>
           (\<forall>g \<in> set (arrival_diffs_ms (purchases_of events)). g < 60000))"
    if ts: "\<forall>e \<in> set events. timestamp e \<noteq> None" for events
  proof -
    let ?ps = "purchases_of events"
    have len: "length ?ps \<le> length events" by (simp add: purchases_of_def)
    from ts have "\<forall>e \<in> set ?ps. timestamp e \<noteq> None" by (simp add: purchases_of_def)
    from time_diffs_total[OF this] obtain ds where ds: "time_diffs ?ps = Inr ds" by blast
    from time_diffs_Inr[OF this] have ds': "ds = map (\<lambda>g. of_int g / 1000) (arrival_diffs_ms ?ps)" .
    show ?thesis
      using len ds list_all_seconds[of "arrival_diffs_ms ?ps"]
      unfolding detect_fraud_pattern_def Let_def purchases_of_def[symmetric] ds'[symmetric]
      by (auto simp: fires_def ds')
  qed
  have B: "purchase_count r = length ?ps \<and>
      avg_time_between r = mean (map (\<lambda>g. of_int g / 1000) (arrival_diffs_ms ?ps))"
    if res: "detect_fraud_pattern events = Inr (Some r)"
  proof -
    from res obtain ds where ds: "time_diffs ?ps = Inr ds"
      and r: "r = \<lparr>rapid_purchases = True, purchase_count = length ?ps,
                   avg_time_between = mean ds\<rparr>"
      unfolding detect_fraud_pattern_def Let_def purchases_of_def[symmetric]
      by (auto split: if_splits sum.splits)
    from time_diffs_Inr[OF ds] r show ?thesis by simp
  qed
  have C: "detect_fraud_pattern [p1, p2, p3] =
        Inr (Some \<lparr>rapid_purchases = True, purchase_count = 3,
                   avg_time_between = 59999 / 1000\<rparr>)"
    if "event_type p1 = Some ''purchase''" "event_type p2 = Some ''purchase''"
      "event_type p3 = Some ''purchase''" "timestamp p1 = Some t"
      "timestamp p2 = Some (t + 59999)" "timestamp p3 = Some (t + 119998)"
    using that
    by (simp add: detect_fraud_pattern_def subscript_timestamp_def mean_def)
  have D: "detect_fraud_pattern [p1, p2, p3] = Inr None"
    if "event_type p1 = Some ''purchase''" "event_type p2 = Some ''purchase''"
      "event_type p3 = Some ''purchase''" "timestamp p1 = Some t1"
      "timestamp p2 = Some t2" "timestamp p3 = Some t3"
      "t2 - t1 \<ge> 60000 \<or> t3 - t2 \<ge> 60000"
  proof -
    have "\<forall>e \<in> set [p1, p2, p3]. timestamp e \<noteq> None" using that by simp
    moreover have "arrival_diffs_ms (purchases_of [p1, p2, p3]) = [t2 - t1, t3 - t2]"
      using that by (simp add: purchases_of_def arrival_diffs_Cons2 arrival_diffs_short)
    ultimately have "\<not> fires (detect_fraud_pattern [p1, p2, p3])"
      using that(7) A by (auto simp: detect_fraud_pattern_def Let_def fires_def
          purchases_of_def subscript_timestamp_def that(1-6))
    then show ?thesis
      using that(1-6)
      by (simp add: detect_fraud_pattern_def subscript_timestamp_def fires_def
          split: if_splits)
  qed
  have E: "fires (detect_fraud_pattern (trimmed_buffer pb now e))
        = (3 \<le> length (purchases_of (trimmed_buffer pb now e)) \<and>
           (\<forall>g \<in> set (arrival_diffs_ms (purchases_of (trimmed_buffer pb now e))). g < 60000))"
    if "1800 \<le> now"
    by (rule A) (rule trimmed_buffer_timestamps[OF that])
  from A[of events] B C D E show ?thesis by blast
qed

theorem fraud_fires_iff_diffs_below_instances:
  "fires (detect_fraud_pattern [sample_event ''purchase'' 1000, sample_event ''click'' 2000,
                 sample_event ''purchase'' 60999, sample_event ''purchase'' 120998]) \<and>
   detect_fraud_pattern [sample_event ''purchase'' 1000, sample_event ''purchase'' 60999,
                 sample_event ''purchase'' 120998]
     = Inr (Some \<lparr>rapid_purchases = True, purchase_count = 3,
                  avg_time_between = 59999 / 1000\<rparr>) \<and>
   detect_fraud_pattern [sample_event ''purchase'' 1000, sample_event ''purchase'' 61000,
                 sample_event ''purchase'' 62000] = Inr None"
proof -
  note T = fraud_fires_iff_diffs_below
  let ?mixed = "[sample_event ''purchase'' 1000, sample_event ''click'' 2000,
                 sample_event ''purchase'' 60999, sample_event ''purchase'' 120998]"
  let ?p1 = "sample_event ''purchase'' 1000"
  have ts: "\<forall>e \<in> set ?mixed. timestamp e \<noteq> None"
    by (simp add: sample_event_def)
  have g: "arrival_diffs_ms (purchases_of ?mixed) = [59999, 59999]"
    by (simp add: purchases_of_def arrival_diffs_ms_def sample_event_def upt_conv_Cons)
  have a: "fires (detect_fraud_pattern ?mixed)"
    using T[where events = ?mixed, THEN conjunct1] ts g
    by (simp add: purchases_of_def sample_event_def)
  then obtain r where r: "detect_fraud_pattern ?mixed = Inr (Some r)"
    by (auto simp: fires_def split: sum.splits option.splits)
  have b: "purchase_count r = 3"
    using T[where events = ?mixed and r = r, THEN conjunct2, THEN conjunct1] r
    by (simp add: purchases_of_def sample_event_def)
  have c: "detect_fraud_pattern [?p1, sample_event ''purchase'' 60999,
                 sample_event ''purchase'' 120998]
     = Inr (Some \<lparr>rapid_purchases = True, purchase_count = 3,
                  avg_time_between = 59999 / 1000\<rparr>)"
    using T[where ?p1.0 = ?p1 and ?p2.0 = "sample_event ''purchase'' 60999"
        and ?p3.0 = "sample_event ''purchase'' 120998" and t = 1000,
        THEN conjunct2, THEN conjunct2, THEN conjunct1]
    by (simp add: sample_event_def)
  have d: "detect_fraud_pattern [?p1, sample_event ''purchase'' 61000,
                 sample_event ''purchase'' 62000] = Inr None"
    using T[where ?p1.0 = ?p1 and ?p2.0 = "sample_event ''purchase'' 61000"
        and ?p3.0 = "sample_event ''purchase'' 62000" and ?t1.0 = 1000 and ?t2.0 = 61000
        and ?t3.0 = 62000, THEN conjunct2, THEN conjunct2, THEN conjunct2, THEN conjunct1]
    by (simp add: sample_event_def)
  from a c d show ?thesis by blast
qed

text \<open>
  On purchases whose timestamps do not decrease in buffer order the signed differences
  are the separations, so there the detector fires exactly when at least three
  purchases are each separated from the previous one by less than 60000 ms.
\<close>

lemma arrival_diffs_time_ordered:
  assumes "\<forall>e \<in> set ps. timestamp e \<noteq> None" "time_ordered ps"
  shows "arrival_diffs_ms ps = separations_ms ps"
proof -
  have "the (timestamp (ps ! i)) \<le> the (timestamp (ps ! Suc i))" if "i < length ps - 1" for i
  proof -
    from that have i: "i < length ps" "Suc i < length ps" by simp_all
    with assms(1) have p: "timestamp (ps ! i) \<noteq> None" "timestamp (ps ! Suc i) \<noteq> None"
      by simp_all
    from assms(2) i have "map timestamp_or_0 ps ! i \<le> map timestamp_or_0 ps ! Suc i"
      unfolding time_ordered_def by (intro sorted_nth_mono) simp_all
    with i p show ?thesis by (auto simp: timestamp_or_0_def)
  qed
  then show ?thesis
    unfolding arrival_diffs_ms_def separations_ms_def by (intro map_cong) simp_all
qed

lemma fraud_fires_time_ordered:
  assumes "\<forall>e \<in> set events. timestamp e \<noteq> None" "time_ordered (purchases_of events)"
  shows "fires (detect_fraud_pattern events)
           = (3 \<le> length (purchases_of events) \<and>
              (\<forall>g \<in> set (separations_ms (purchases_of events)). g < 60000))"
proof -
  from assms(1) have "\<forall>e \<in> set (purchases_of events). timestamp e \<noteq> None"
    by (simp add: purchases_of_def)
  from arrival_diffs_time_ordered[OF this assms(2)]
    fraud_fires_iff_diffs_below[of events, THEN conjunct1] assms(1)
  show ?thesis by simp
qed

text \<open>
  C7 fails on the code. The claim lets the detector fire only when every two
  consecutive purchases are separated by less than 60000 ms. The detector compares
  the signed difference \<^verbatim>\<open>purchases[i]['timestamp'] - purchases[i-1]['timestamp']\<close> with
  the bound (its comment reads \<^verbatim>\<open>All within 1 minute\<close>), so a purchase stamped earlier
  than the one before it passes however far apart the two are. Three purchases
  arriving with the timestamps 500000, 1000 and 2000 ms hold a pair that is 499
  seconds apart, and the detector fires, reporting a mean gap of -249 seconds.
\<close>

theorem out_of_order_purchases_fire:
  "detect_fraud_pattern
      [sample_event ''purchase'' 500000, sample_event ''purchase'' 1000,
       sample_event ''purchase'' 2000]
     = Inr (Some \<lparr>rapid_purchases = True, purchase_count = 3, avg_time_between = - 249\<rparr>) \<and>
   separations_ms (purchases_of
      [sample_event ''purchase'' 500000, sample_event ''purchase'' 1000,
       sample_event ''purchase'' 2000]) = [499000, 1000]"
  by (simp add: detect_fraud_pattern_def subscript_timestamp_def mean_def sample_event_def
      separations_ms_def purchases_of_def upt_conv_Cons)

subsection \<open>Sliding window\<close>

lemma agg_get_add_to:
  "agg_get (add_to a k1 k2 v) j1 j2 = agg_get a j1 j2 + (if k1 = j1 \<and> k2 = j2 then v else 0)"
  by (auto simp: agg_get_def add_to_def Let_def split: option.splits)

lemma fold_aggregate_counts:
  "agg_get (fst (fold aggregate_step es st)) ''counts'' ty
     = agg_get (fst st) ''counts'' ty + of_nat (count_of_type ty es)"
proof (induction es arbitrary: st)
  case Nil
  then show ?case by (simp add: count_of_type_def)
next
  case (Cons te es)
  have "agg_get (fst (aggregate_step te st)) ''counts'' ty
          = agg_get (fst st) ''counts'' ty
            + (if event_type_or_unknown (snd te) = ty then 1 else 0)"
    by (simp add: aggregate_step_def Let_def agg_get_add_to split: option.splits)
  with Cons.IH[of "aggregate_step te st"] show ?case
    by (simp add: count_of_type_def)
qed

lemma fold_aggregate_total:
  "agg_get (fst (fold aggregate_step es st)) ''total'' ''events''
     = agg_get (fst st) ''total'' ''events'' + of_nat (length es)"
proof (induction es arbitrary: st)
  case Nil
  then show ?case by simp
next
  case (Cons te es)
  have "agg_get (fst (aggregate_step te st)) ''total'' ''events''
          = agg_get (fst st) ''total'' ''events'' + 1"
    by (simp add: aggregate_step_def Let_def agg_get_add_to split: option.splits)
  with Cons.IH[of "aggregate_step te st"] show ?case by simp
qed

lemma fold_aggregate_revenue:
  "agg_get (fst (fold aggregate_step es st)) ''revenue'' k
     = agg_get (fst st) ''revenue'' k + revenue_of_type k es
       + (if k = ''total'' then total_revenue es else 0)"
proof (induction es arbitrary: st)
  case Nil
  then show ?case by (simp add: revenue_of_type_def total_revenue_def)
next
  case (Cons te es)
  have "agg_get (fst (aggregate_step te st)) ''revenue'' k
          = agg_get (fst st) ''revenue'' k
            + (if event_type_or_unknown (snd te) = k then amount_or_0 (snd te) else 0)
            + (if k = ''total'' then amount_or_0 (snd te) else 0)"
    by (simp add: aggregate_step_def Let_def agg_get_add_to amount_or_0_def
        split: option.splits)
  with Cons.IH[of "aggregate_step te st"] show ?case
    by (simp add: revenue_of_type_def total_revenue_def)
qed

lemma fold_aggregate_users:
  "set (snd (fold aggregate_step es st)) = set (snd st) \<union> unique_users es \<and>
   (distinct (snd st) \<longrightarrow> distinct (snd (fold aggregate_step es st)))"
proof (induction es arbitrary: st)
  case Nil
  then show ?case by (simp add: unique_users_def)
next
  case (Cons te es)
  have s: "set (snd (aggregate_step te st))
          = set (snd st) \<union> {u. u \<noteq> [] \<and> user_id (snd te) = Some u}"
    by (auto simp: aggregate_step_def Let_def split: option.splits)
  have d: "distinct (snd st) \<longrightarrow> distinct (snd (aggregate_step te st))"
    by (auto simp: aggregate_step_def Let_def split: option.splits)
  have u: "unique_users (te # es) = {u. u \<noteq> [] \<and> user_id (snd te) = Some u} \<union> unique_users es"
    by (auto simp: unique_users_def)
  from Cons.IH[of "aggregate_step te st"] s d u show ?case by auto
qed

lemma recompute_counts:
  "agg_get (recompute es) ''counts'' ty = of_nat (count_of_type ty es)"
  using fold_aggregate_counts[of es "(Map.empty, [])" ty]
  by (simp add: recompute_def Let_def agg_get_def)

lemma recompute_total:
  "agg_get (recompute es) ''total'' ''events'' = of_nat (length es)"
  using fold_aggregate_total[of es "(Map.empty, [])"]
  by (simp add: recompute_def Let_def agg_get_def)

lemma recompute_revenue:
  "agg_get (recompute es) ''revenue'' k
     = revenue_of_type k es + (if k = ''total'' then total_revenue es else 0)"
  using fold_aggregate_revenue[of es "(Map.empty, [])" k]
  by (simp add: recompute_def Let_def agg_get_def)

lemma recompute_users:
  "agg_get (recompute es) ''unique_users'' ''count'' = of_nat (card (unique_users es))"
proof -
  from fold_aggregate_users[of es "(Map.empty, [])"]
  have "set (snd (fold aggregate_step es (Map.empty, []))) = unique_users es"
    "distinct (snd (fold aggregate_step es (Map.empty, [])))"
    by simp_all
  then have "length (snd (fold aggregate_step es (Map.empty, []))) = card (unique_users es)"
    using distinct_card by fastforce
  then show ?thesis by (simp add: recompute_def Let_def agg_get_def)
qed

lemma dropWhile_sorted:
  assumes "sorted (map fst xs)"
  shows "dropWhile (\<lambda>te. fst te < c) xs = filter (\<lambda>te. c \<le> fst te) xs"
  using assms
proof (induction xs)
  case Nil
  then show ?case by simp
next
  case (Cons x xs)
  show ?case
  proof (cases "fst x < c")
    case True
    with Cons show ?thesis by simp
  next
    case False
    with Cons.prems have "\<forall>y \<in> set xs. c \<le> fst y" by auto
    then have "filter (\<lambda>te. c \<le> fst te) xs = xs" by simp
    with False show ?thesis by simp
  qed
qed

lemma sw_events_add_event:
  "sw_events (add_event sw now e)
     = dropWhile (\<lambda>te. fst te < now - of_int (window_size sw)) (sw_events sw @ [(now, e)])"
  by (simp add: add_event_def update_aggregates_def Let_def)

lemma aggregates_add_event:
  "aggregates (add_event sw now e) = recompute (sw_events (add_event sw now e))"
  by (simp add: add_event_def update_aggregates_def Let_def)

lemma window_size_add_event: "window_size (add_event sw now e) = window_size sw"
  by (simp add: add_event_def update_aggregates_def Let_def)

lemma window_size_add_events: "window_size (add_events sw ins) = window_size sw"
  unfolding add_events_def
  by (induction ins arbitrary: sw) (simp_all add: window_size_add_event)

lemma add_events_snoc:
  "add_events sw (ins @ [te]) = add_event (add_events sw ins) (fst te) (snd te)"
  by (simp add: add_events_def)

lemma retained_closed_interval:
  assumes "sorted (map fst ins)" "ins \<noteq> []"
  shows "sw_events (add_events (SlidingWindow ws) ins)
           = filter (\<lambda>te. fst (last ins) - of_int ws \<le> fst te) ins"
  using assms
proof (induction ins rule: rev_induct)
  case Nil
  then show ?case by simp
next
  case (snoc te ins)
  let ?now = "fst te"
  let ?c = "?now - of_int ws"
  let ?sw = "add_events (SlidingWindow ws) ins"
  from snoc.prems(1) have srt: "sorted (map fst ins)" and le: "\<forall>x \<in> set ins. fst x \<le> ?now"
    by (auto simp: sorted_append)
  have ws: "window_size ?sw = ws"
    by (simp add: window_size_add_events SlidingWindow_def)
  have prev: "sw_events ?sw = filter (\<lambda>x. fst (last ins) - of_int ws \<le> fst x) ins"
    if "ins \<noteq> []"
    using snoc.IH[OF srt that] .
  have keep: "filter (\<lambda>x. ?c \<le> fst x) (sw_events ?sw) = filter (\<lambda>x. ?c \<le> fst x) ins"
  proof (cases "ins = []")
    case True
    then show ?thesis by (simp add: add_events_def SlidingWindow_def)
  next
    case False
    then have "fst (last ins) \<le> ?now" using le by simp
    then have "\<And>x. ?c \<le> fst x \<Longrightarrow> fst (last ins) - of_int ws \<le> fst x" by simp
    then show ?thesis
      unfolding prev[OF False] filter_filter
      by (intro filter_cong) auto
  qed
  have sorted_prev: "sorted (map fst (sw_events ?sw @ [(?now, snd te)]))"
  proof (cases "ins = []")
    case True
    then show ?thesis by (simp add: add_events_def SlidingWindow_def)
  next
    case False
    have "sorted (map fst (filter (\<lambda>x. fst (last ins) - of_int ws \<le> fst x) ins))"
      using srt by (simp add: sorted_map sorted_wrt_filter)
    moreover have "\<forall>x \<in> set (filter (\<lambda>x. fst (last ins) - of_int ws \<le> fst x) ins). fst x \<le> ?now"
      using le by simp
    ultimately show ?thesis
      unfolding prev[OF False] by (auto simp: sorted_append)
  qed
  have "sw_events (add_events (SlidingWindow ws) (ins @ [te]))
          = dropWhile (\<lambda>x. fst x < ?c) (sw_events ?sw @ [(?now, snd te)])"
    by (simp add: add_events_snoc sw_events_add_event ws)
  also have "\<dots> = filter (\<lambda>x. ?c \<le> fst x) (sw_events ?sw @ [(?now, snd te)])"
    by (rule dropWhile_sorted[OF sorted_prev])
  also have "\<dots> = filter (\<lambda>x. ?c \<le> fst x) ins @ filter (\<lambda>x. ?c \<le> fst x) [te]"
    using keep by simp
  finally show ?case by simp
qed

lemma aggregates_add_events:
  assumes "ins \<noteq> []"
  shows "aggregates (add_events sw ins) = recompute (sw_events (add_events sw ins))"
proof -
  from assms obtain xs x where "ins = xs @ [x]" by (metis append_butlast_last_id)
  then show ?thesis by (simp add: add_events_snoc aggregates_add_event)
qed

lemma sorted_le_last:
  assumes "sorted (map fst ins)" "ins \<noteq> []"
  shows "\<forall>x \<in> set ins. fst x \<le> fst (last ins)"
proof -
  from assms(2) obtain xs l where ins: "ins = xs @ [l]" by (metis append_butlast_last_id)
  with assms(1) show ?thesis by (auto simp: sorted_append)
qed

text \<open>
  C4 does not hold as stated. The retained entries are not always those of the
  half-open window: an entry whose
  time is exactly \<open>now - window_size\<close> is kept (the loop evicts only strictly older
  entries), and after a clock reading that went backwards an entry outside the window
  stays behind a newer head.
\<close>

theorem window_retains_half_open_counterexample:
  "sw_events (add_events (SlidingWindow 60)
       [(0, sample_event ''click'' 0), (60, sample_event ''click'' 60000)])
     \<noteq> filter (half_open_window 60 60)
         [(0, sample_event ''click'' 0), (60, sample_event ''click'' 60000)] \<and>
   sw_events (add_events (SlidingWindow 60)
       [(200, sample_event ''click'' 200000), (10, sample_event ''click'' 10000),
        (100, sample_event ''click'' 100000)])
     \<noteq> filter (half_open_window 100 60)
         [(200, sample_event ''click'' 200000), (10, sample_event ''click'' 10000),
          (100, sample_event ''click'' 100000)]"
  by (simp add: add_events_def add_event_def update_aggregates_def SlidingWindow_def
      half_open_window_def Let_def)

text \<open>
  C4, as the code has it. For every insertion sequence whose clock readings do not
  decrease, after each \<open>add_event\<close> the retained entries are exactly the inserted ones
  with time in the closed interval from \<open>now - window_size\<close> to \<open>now\<close>. After every
  insertion the aggregate map is the full recomputation over the retained entries, and
  that recomputation gives, for any list of entries: per event type the number of
  entries, the number of entries, the number of distinct (non-empty) user ids, under
  \<open>revenue\<close> the sum of the amounts per event type, and under \<open>revenue/total\<close> the sum of
  all amounts (to which the amounts of events whose type is itself called \<open>total\<close> are
  added once more, since they share the key).
\<close>

theorem window_retains_closed_interval:
  "(sorted (map fst ins) \<and> ins \<noteq> [] \<longrightarrow>
      sw_events (add_events (SlidingWindow ws) ins)
        = filter (closed_window (fst (last ins)) ws) ins) \<and>
   (ins \<noteq> [] \<longrightarrow>
      aggregates (add_events sw ins) = recompute (sw_events (add_events sw ins))) \<and>
   agg_get (recompute entries) ''counts'' ty = of_nat (count_of_type ty entries) \<and>
   agg_get (recompute entries) ''total'' ''events'' = of_nat (length entries) \<and>
   agg_get (recompute entries) ''unique_users'' ''count''
     = of_nat (card (unique_users entries)) \<and>
   agg_get (recompute entries) ''revenue'' ''total''
     = total_revenue entries + revenue_of_type ''total'' entries \<and>
   (ty \<noteq> ''total'' \<longrightarrow>
      agg_get (recompute entries) ''revenue'' ty = revenue_of_type ty entries)"
proof -
  have A: "sw_events (add_events (SlidingWindow ws) ins)
        = filter (closed_window (fst (last ins)) ws) ins"
    if "sorted (map fst ins)" "ins \<noteq> []"
  proof -
    have "\<forall>x \<in> set ins. fst x \<le> fst (last ins)"
      by (rule sorted_le_last[OF that])
    then have "filter (\<lambda>te. fst (last ins) - of_int ws \<le> fst te) ins
                 = filter (closed_window (fst (last ins)) ws) ins"
      by (intro filter_cong) (auto simp: closed_window_def)
    with retained_closed_interval[OF that] show ?thesis by simp
  qed
  from A aggregates_add_events[of ins sw] recompute_counts[of entries ty]
    recompute_total[of entries] recompute_users[of entries]
    recompute_revenue[of entries ty] recompute_revenue[of entries "''total''"]
  show ?thesis by simp
qed

theorem window_retains_closed_interval_witness:
  "sorted (map fst [(0::rat, sample_event ''click'' 0),
                    (1, (sample_event ''purchase'' 1000)\<lparr>amount := Some 25\<rparr>),
                    (61, sample_event ''click'' 61000)]) \<and>
   sw_events (add_events (SlidingWindow 60)
       [(0::rat, sample_event ''click'' 0),
        (1, (sample_event ''purchase'' 1000)\<lparr>amount := Some 25\<rparr>),
        (61, sample_event ''click'' 61000)])
     = [(1, (sample_event ''purchase'' 1000)\<lparr>amount := Some 25\<rparr>),
        (61, sample_event ''click'' 61000)] \<and>
   agg_get (aggregates (add_events (SlidingWindow 60)
       [(0::rat, sample_event ''click'' 0),
        (1, (sample_event ''purchase'' 1000)\<lparr>amount := Some 25\<rparr>),
        (61, sample_event ''click'' 61000)])) ''counts'' ''click'' = 1 \<and>
   agg_get (aggregates (add_events (SlidingWindow 60)
       [(0::rat, sample_event ''click'' 0),
        (1, (sample_event ''purchase'' 1000)\<lparr>amount := Some 25\<rparr>),
        (61, sample_event ''click'' 61000)])) ''revenue'' ''purchase'' = 25"
proof -
  note T = window_retains_closed_interval
  let ?ins = "[(0::rat, sample_event ''click'' 0),
        (1, (sample_event ''purchase'' 1000)\<lparr>amount := Some 25\<rparr>),
        (61, sample_event ''click'' 61000)]"
  let ?kept = "[(1, (sample_event ''purchase'' 1000)\<lparr>amount := Some 25\<rparr>),
        (61, sample_event ''click'' 61000)]"
  have s: "sorted (map fst ?ins)" "?ins \<noteq> []" by simp_all
  have a: "sw_events (add_events (SlidingWindow 60) ?ins) = ?kept"
    using T[where ins = ?ins and ws = 60, THEN conjunct1] s
    by (simp add: closed_window_def)
  have b: "aggregates (add_events (SlidingWindow 60) ?ins) = recompute ?kept"
    using T[where ins = ?ins and sw = "SlidingWindow 60", THEN conjunct2, THEN conjunct1] a
    by simp
  have c: "agg_get (recompute ?kept) ''counts'' ''click'' = 1"
    using T[where entries = ?kept and ty = "''click''", THEN conjunct2, THEN conjunct2,
        THEN conjunct1]
    by (simp add: count_of_type_def event_type_or_unknown_def sample_event_def)
  have d: "agg_get (recompute ?kept) ''revenue'' ''purchase'' = 25"
    using T[where entries = ?kept and ty = "''purchase''"]
    by (simp add: revenue_of_type_def total_revenue_def event_type_or_unknown_def
        amount_or_0_def sample_event_def)
  from s a b c d show ?thesis by simp
qed

subsection \<open>Idempotency filter\<close>

lemma should_process_eq:
  "should_process H stage cache e =
     (generate_idempotency_key H stage e \<notin> cache,
      insert (generate_idempotency_key H stage e) cache)"
  by (auto simp: should_process_def Let_def insert_absorb)

lemma should_process_all_length:
  "length (fst (should_process_all H stage cache es)) = length es"
  by (induction es arbitrary: cache) (simp_all add: should_process_eq split_beta)

lemma should_process_all_cache:
  "snd (should_process_all H stage cache es)
     = cache \<union> generate_idempotency_key H stage ` set es"
  by (induction es arbitrary: cache) (auto simp: should_process_eq split_beta)

lemma should_process_all_nth:
  assumes "i < length es"
  shows "fst (should_process_all H stage cache es) ! i
           = (generate_idempotency_key H stage (es ! i) \<notin> cache \<and>
              (\<forall>j<i. generate_idempotency_key H stage (es ! j)
                        \<noteq> generate_idempotency_key H stage (es ! i)))"
  using assms
proof (induction es arbitrary: cache i)
  case Nil
  then show ?case by simp
next
  case (Cons e es)
  let ?K = "generate_idempotency_key H stage"
  show ?case
  proof (cases i)
    case 0
    then show ?thesis by (simp add: should_process_eq split_beta)
  next
    case (Suc k)
    with Cons.prems have k: "k < length es" by simp
    have "fst (should_process_all H stage cache (e # es)) ! i
            = fst (should_process_all H stage (insert (?K e) cache) es) ! k"
      using Suc by (simp add: should_process_eq split_beta)
    also have "\<dots> = (?K (es ! k) \<notin> insert (?K e) cache \<and>
                      (\<forall>j<k. ?K (es ! j) \<noteq> ?K (es ! k)))"
      by (rule Cons.IH[OF k])
    also have "\<dots> = (?K ((e # es) ! i) \<notin> cache \<and>
                      (\<forall>j<i. ?K ((e # es) ! j) \<noteq> ?K ((e # es) ! i)))"
      using Suc by (auto simp: less_Suc_eq_0_disj)
    finally show ?thesis .
  qed
qed

lemma key_deterministic:
  "key_tuple e = key_tuple e' \<Longrightarrow>
     generate_idempotency_key H stage e = generate_idempotency_key H stage e'"
  by (simp add: key_tuple_def generate_idempotency_key_def key_data_def)

lemma process_event_duplicate:
  assumes "generate_idempotency_key H stage e \<in> idempotency_cache p"
  shows "process_event H stage sp p clock e
           = (Inr None, p\<lparr>idempotency_hits := idempotency_hits p + 1\<rparr>)"
  using assms by (simp add: process_event_def should_process_eq)

text \<open>
  C3 fails on the code. The claim promises that the first call for every distinct
  tuple returns true. \<^verbatim>\<open>generate_idempotency_key\<close> (docstring: idempotency key for
  exactly-once processing) joins the fields with colons without escaping them before
  hashing, so two different tuples whose joined strings coincide get the same key
  whatever the digest is: after the event with id \<open>a:b\<close> of user \<open>c\<close>, the event with id
  \<open>a\<close> of user \<open>b:c\<close> and the same timestamp is skipped as a duplicate on its first
  call. (The digest is replaced by the identity here, which has no collisions of its
  own.)
\<close>

theorem colon_join_collision_skips_first_call:
  "key_tuple ((sample_event ''click'' 1)\<lparr>event_id := Some ''a:b'', user_id := Some ''c''\<rparr>)
     \<noteq> key_tuple ((sample_event ''click'' 1)\<lparr>event_id := Some ''a'', user_id := Some ''b:c''\<rparr>) \<and>
   key_data ''enrichment''
       ((sample_event ''click'' 1)\<lparr>event_id := Some ''a:b'', user_id := Some ''c''\<rparr>)
     = key_data ''enrichment''
         ((sample_event ''click'' 1)\<lparr>event_id := Some ''a'', user_id := Some ''b:c''\<rparr>) \<and>
   fst (should_process_all id ''enrichment'' {}
        [(sample_event ''click'' 1)\<lparr>event_id := Some ''a:b'', user_id := Some ''c''\<rparr>,
         (sample_event ''click'' 1)\<lparr>event_id := Some ''a'', user_id := Some ''b:c''\<rparr>])
     = [True, False]"
  by (simp add: key_tuple_def key_data_def sample_event_def should_process_eq
      generate_idempotency_key_def)

text \<open>
  What the check does, in terms of keys. It returns true and inserts the key exactly
  when the key is not yet in the cache, and returns false leaving the cache as it is
  otherwise. Over any sequence of calls on a fresh filter, a call returns true exactly
  when no earlier call had the same key; in particular every call after the first with
  the same tuple returns false. The key is a function of the tuple (and the stage). A
  duplicate makes \<open>process_event\<close> return nothing and changes nothing but the counter
  of duplicates.
\<close>

theorem should_process_once_per_key:
  "(generate_idempotency_key H stage e \<notin> cache \<longrightarrow>
      should_process H stage cache e
        = (True, insert (generate_idempotency_key H stage e) cache)) \<and>
   (generate_idempotency_key H stage e \<in> cache \<longrightarrow>
      should_process H stage cache e = (False, cache)) \<and>
   (i < length es \<longrightarrow>
      fst (should_process_all H stage {} es) ! i
        = (\<forall>j<i. generate_idempotency_key H stage (es ! j)
                    \<noteq> generate_idempotency_key H stage (es ! i))) \<and>
   (i < k \<and> k < length es \<and> key_tuple (es ! i) = key_tuple (es ! k) \<longrightarrow>
      \<not> fst (should_process_all H stage {} es) ! k) \<and>
   (key_tuple e = key_tuple e' \<longrightarrow>
      generate_idempotency_key H stage e = generate_idempotency_key H stage e') \<and>
   (generate_idempotency_key H stage e \<in> idempotency_cache p \<longrightarrow>
      process_event H stage sp p clock e
        = (Inr None, p\<lparr>idempotency_hits := idempotency_hits p + 1\<rparr>))"
proof -
  have a: "generate_idempotency_key H stage e \<notin> cache \<Longrightarrow>
      should_process H stage cache e
        = (True, insert (generate_idempotency_key H stage e) cache)"
    by (simp add: should_process_def)
  have b: "generate_idempotency_key H stage e \<in> cache \<Longrightarrow>
      should_process H stage cache e = (False, cache)"
    by (simp add: should_process_def)
  have c: "i < length es \<Longrightarrow>
      fst (should_process_all H stage {} es) ! i
        = (\<forall>j<i. generate_idempotency_key H stage (es ! j)
                    \<noteq> generate_idempotency_key H stage (es ! i))"
    by (simp add: should_process_all_nth)
  have d: "\<not> fst (should_process_all H stage {} es) ! k"
    if "i < k" "k < length es" "key_tuple (es ! i) = key_tuple (es ! k)"
    using that key_deterministic[OF that(3), of H stage]
    by (auto simp: should_process_all_nth)
  from a b c d key_deterministic[of e e' H stage] process_event_duplicate[of H stage e p sp clock]
  show ?thesis by blast
qed

theorem should_process_once_per_key_witness:
  "should_process id ''enrichment'' {} (sample_event ''click'' 1)
     = (True, {''e:u1:1:enrichment''}) \<and>
   should_process id ''enrichment'' {''e:u1:1:enrichment''} (sample_event ''click'' 1)
     = (False, {''e:u1:1:enrichment''}) \<and>
   fst (should_process_all id ''enrichment'' {}
          [sample_event ''click'' 1, sample_event ''click'' 2, sample_event ''view'' 1]) ! 1 \<and>
   \<not> fst (should_process_all id ''enrichment'' {}
          [sample_event ''click'' 1, sample_event ''click'' 2, sample_event ''view'' 1]) ! 2 \<and>
   generate_idempotency_key id ''enrichment'' (sample_event ''click'' 1)
     = generate_idempotency_key id ''enrichment'' (sample_event ''view'' 1) \<and>
   process_event id ''aggregation'' aggregation_stage
       ((new_processor (SlidingWindow 60))\<lparr>idempotency_cache := {''e:u1:1:aggregation''}\<rparr>)
       2000 (sample_event ''click'' 1)
     = (Inr None, (new_processor (SlidingWindow 60))
          \<lparr>idempotency_cache := {''e:u1:1:aggregation''}, idempotency_hits := 1\<rparr>)"
proof -
  note T = should_process_once_per_key
  let ?e1 = "sample_event ''click'' 1"
  let ?es = "[sample_event ''click'' 1, sample_event ''click'' 2, sample_event ''view'' 1]"
  have k1: "generate_idempotency_key id stage ?e1 = ''e:u1:1:'' @ stage" for stage
    by (simp add: generate_idempotency_key_def key_data_def sample_event_def str_int_def
        str_nat.simps)
  have k2: "generate_idempotency_key id ''enrichment'' (sample_event ''click'' 2)
              = ''e:u1:2:enrichment''"
    by (simp add: generate_idempotency_key_def key_data_def sample_event_def str_int_def
        str_nat.simps)
  have a: "should_process id ''enrichment'' {} ?e1 = (True, {''e:u1:1:enrichment''})"
    using T[where H = id and stage = "''enrichment''" and cache = "{}" and e = ?e1,
        THEN conjunct1] k1[of "''enrichment''"]
    by simp
  have b: "should_process id ''enrichment'' {''e:u1:1:enrichment''} ?e1
             = (False, {''e:u1:1:enrichment''})"
    using T[where H = id and stage = "''enrichment''" and cache = "{''e:u1:1:enrichment''}"
        and e = ?e1, THEN conjunct2, THEN conjunct1] k1[of "''enrichment''"]
    by simp
  have c: "fst (should_process_all id ''enrichment'' {} ?es) ! 1"
    using T[where H = id and stage = "''enrichment''" and es = ?es and i = 1,
        THEN conjunct2, THEN conjunct2, THEN conjunct1] k1[of "''enrichment''"] k2
    by simp
  have d: "\<not> fst (should_process_all id ''enrichment'' {} ?es) ! 2"
    using T[where H = id and stage = "''enrichment''" and es = ?es and i = 0 and k = 2,
        THEN conjunct2, THEN conjunct2, THEN conjunct2, THEN conjunct1]
    by (simp add: key_tuple_def sample_event_def)
  have e: "generate_idempotency_key id ''enrichment'' ?e1
     = generate_idempotency_key id ''enrichment'' (sample_event ''view'' 1)"
    using T[where H = id and stage = "''enrichment''" and e = ?e1
        and e' = "sample_event ''view'' 1",
        THEN conjunct2, THEN conjunct2, THEN conjunct2, THEN conjunct2, THEN conjunct1]
    by (simp add: key_tuple_def sample_event_def)
  have f: "process_event id ''aggregation'' aggregation_stage
       ((new_processor (SlidingWindow 60))\<lparr>idempotency_cache := {''e:u1:1:aggregation''}\<rparr>)
       2000 ?e1
     = (Inr None, (new_processor (SlidingWindow 60))
          \<lparr>idempotency_cache := {''e:u1:1:aggregation''}, idempotency_hits := 1\<rparr>)"
    using T[where H = id and stage = "''aggregation''" and e = ?e1
        and p = "(new_processor (SlidingWindow 60))\<lparr>idempotency_cache := {''e:u1:1:aggregation''}\<rparr>"
        and sp = aggregation_stage and clock = 2000,
        THEN conjunct2, THEN conjunct2, THEN conjunct2, THEN conjunct2, THEN conjunct2]
      k1[of "''aggregation''"]
    by (simp add: new_processor_def)
  from a b c d e f show ?thesis by blast
qed

subsection \<open>Consumer loop: unparseable messages\<close>

lemma loads_unparseable:
  "\<not> parses m \<Longrightarrow> loads (snd m) = Inl (KeyError ''data'') \<or> loads (snd m) = Inl JSONDecodeError"
  by (auto simp: parses_def loads_def split: option.splits payload.splits)

lemma loads_parses: "parses m \<longleftrightarrow> (\<exists>e. loads (snd m) = Inr e)"
  by (auto simp: parses_def loads_def split: option.splits payload.splits)

lemma handle_message_unparseable:
  assumes "\<not> parses m"
  shows "handle_message H stage sp clock sn m b
           = b\<lparr>error_log := error_log b @
                 [(fst m, case snd m of None \<Rightarrow> KeyError ''data'' | Some _ \<Rightarrow> JSONDecodeError)]\<rparr>"
  using assms
  by (auto simp: handle_message_def parses_def loads_def split: option.splits payload.splits)

lemma handle_message_same:
  assumes "same_but_log b b'"
  shows "same_but_log (handle_message H stage sp clock sn m b)
           (handle_message H stage sp clock sn m b')"
  using assms
  by (auto simp: same_but_log_def handle_message_def split: sum.splits prod.splits option.splits)

lemma handle_messages_same:
  assumes "same_but_log b b'"
  shows "same_but_log (handle_messages H stage sp clock sn ms b)
           (handle_messages H stage sp clock sn (filter parses ms) b')"
  using assms unfolding handle_messages_def
proof (induction ms arbitrary: b b')
  case Nil
  then show ?case by simp
next
  case (Cons m ms)
  show ?case
  proof (cases "parses m")
    case True
    with Cons.IH[OF handle_message_same[OF Cons.prems, of H stage sp clock sn m]]
    show ?thesis by simp
  next
    case False
    have "same_but_log (handle_message H stage sp clock sn m b) b'"
      using Cons.prems by (simp add: handle_message_unparseable[OF False] same_but_log_def)
    from Cons.IH[OF this] False show ?thesis by simp
  qed
qed

lemma handle_message_ack_ids:
  "ack_ids (handle_message H stage sp clock sn m b) = ack_ids b \<or>
   (parses m \<and> ack_ids (handle_message H stage sp clock sn m b) = ack_ids b @ [(sn, fst m)])"
  by (auto simp: handle_message_def loads_parses split: sum.splits prod.splits)

lemma handle_messages_acked_parse:
  assumes "(s, mid) \<in> set (ack_ids (handle_messages H stage sp clock sn ms b))"
  shows "(s, mid) \<in> set (ack_ids b) \<or> (s = sn \<and> (\<exists>m \<in> set ms. fst m = mid \<and> parses m))"
  using assms unfolding handle_messages_def
proof (induction ms arbitrary: b)
  case Nil
  then show ?case by simp
next
  case (Cons m ms)
  from Cons.IH[of "handle_message H stage sp clock sn m b"] Cons.prems
  have "(s, mid) \<in> set (ack_ids (handle_message H stage sp clock sn m b)) \<or>
        (s = sn \<and> (\<exists>m \<in> set ms. fst m = mid \<and> parses m))"
    by simp
  with handle_message_ack_ids[of H stage sp clock sn m b] show ?case by auto
qed

lemma handle_streams_acked_parse:
  assumes "(s, mid) \<in> set (ack_ids (handle_streams H stage sp clock streams b))"
  shows "(s, mid) \<in> set (ack_ids b) \<or>
         (\<exists>sm \<in> set streams. fst sm = s \<and> (\<exists>m \<in> set (snd sm). fst m = mid \<and> parses m))"
  using assms unfolding handle_streams_def
proof (induction streams arbitrary: b)
  case Nil
  then show ?case by simp
next
  case (Cons sm streams)
  from Cons.IH[of "handle_messages H stage sp clock (fst sm) (snd sm) b"] Cons.prems
  have "(s, mid) \<in> set (ack_ids (handle_messages H stage sp clock (fst sm) (snd sm) b)) \<or>
        (\<exists>sm \<in> set streams. fst sm = s \<and> (\<exists>m \<in> set (snd sm). fst m = mid \<and> parses m))"
    by simp
  with handle_messages_acked_parse[of s mid H stage sp clock "fst sm" "snd sm" b]
  show ?case by auto
qed

lemma run_pass_acked:
  assumes "(s, mid) \<in> set (acked (snd (run_pass H stage sp enr_ok clock ok xf streams (p, br))))"
  shows "(s, mid) \<in> set (acked br) \<or>
         (\<exists>sm \<in> set streams. fst sm = s \<and> (\<exists>m \<in> set (snd sm). fst m = mid \<and> parses m))"
proof -
  let ?b = "handle_streams H stage sp clock streams
              \<lparr>proc = p, processed_events = [], ack_ids = [], error_log = []\<rparr>"
  from assms have "(s, mid) \<in> set (acked br) \<or> (s, mid) \<in> set (ack_ids ?b)"
    by (auto simp: run_pass_def Let_def split: if_splits option.splits dest: in_set_takeD)
  with handle_streams_acked_parse[of s mid H stage sp clock streams] show ?thesis
    by fastforce
qed

text \<open>
  C2 does not hold as stated. A message whose payload does not decode is logged but
  not acknowledged: its id is
  appended to \<open>ack_ids\<close> only after decoding and processing have succeeded.
\<close>

theorem unparseable_acknowledged_counterexample:
  "acked (snd (run_pass id ''aggregation'' aggregation_stage aggregates_encodable 2000 True None
        [(''events'', [(''1-0'', Some (Malformed ''{oops''))])]
        (new_processor (SlidingWindow 60), \<lparr>output_stream = [], acked = []\<rparr>))) = [] \<and>
   error_log (fst (run_pass id ''aggregation'' aggregation_stage aggregates_encodable 2000 True None
        [(''events'', [(''1-0'', Some (Malformed ''{oops''))])]
        (new_processor (SlidingWindow 60), \<lparr>output_stream = [], acked = []\<rparr>)))
     = [(''1-0'', JSONDecodeError)]"
  by (simp add: run_pass_def handle_streams_def handle_messages_def handle_message_def
      loads_def Let_def)

text \<open>
  C2, as the code has it. For every message whose payload is unparseable (or absent),
  the consumer logs the error and does nothing else: the message is not put among the
  ids to acknowledge. The rest of the batch is handled exactly as if the message were
  not there, so it does not hold up the other messages. A pass acknowledges no message
  other than ones whose payload decoded.
\<close>

theorem unparseable_logged_not_acknowledged:
  "(\<not> parses m \<longrightarrow>
      handle_message H stage sp clock sn m b
        = b\<lparr>error_log := error_log b @
              [(fst m, case snd m of None \<Rightarrow> KeyError ''data'' | Some _ \<Rightarrow> JSONDecodeError)]\<rparr>) \<and>
   same_but_log (handle_messages H stage sp clock sn ms b)
     (handle_messages H stage sp clock sn (filter parses ms) b) \<and>
   ((s, mid) \<in> set (acked (snd (run_pass H stage sp enr_ok clock ok xf streams (p, br)))) \<longrightarrow>
      (s, mid) \<in> set (acked br) \<or>
      (\<exists>sm \<in> set streams. fst sm = s \<and> (\<exists>m \<in> set (snd sm). fst m = mid \<and> parses m)))"
  using handle_message_unparseable[of m H stage sp clock sn b]
    handle_messages_same[of b b H stage sp clock sn ms]
    run_pass_acked[of s mid H stage sp enr_ok clock ok xf streams p br]
  by (simp add: same_but_log_def)

theorem unparseable_logged_not_acknowledged_witness:
  "handle_message id ''aggregation'' aggregation_stage 2000 ''events''
       (''1-0'', Some (Malformed ''{oops''))
       \<lparr>proc = new_processor (SlidingWindow 60), processed_events = [], ack_ids = [],
        error_log = []\<rparr>
     = \<lparr>proc = new_processor (SlidingWindow 60), processed_events = [], ack_ids = [],
        error_log = [(''1-0'', JSONDecodeError)]\<rparr> \<and>
   (''events'', ''1-0'') \<notin> set (acked (snd (run_pass id ''aggregation'' aggregation_stage aggregates_encodable 2000
        True None
        [(''events'', [(''1-0'', Some (Malformed ''{oops'')),
                       (''2-0'', Some (Decodes (sample_event ''click'' 1999000)))])]
        (new_processor (SlidingWindow 60), \<lparr>output_stream = [], acked = []\<rparr>))))"
proof -
  note T = unparseable_logged_not_acknowledged
  have a: "handle_message id ''aggregation'' aggregation_stage 2000 ''events''
       (''1-0'', Some (Malformed ''{oops''))
       \<lparr>proc = new_processor (SlidingWindow 60), processed_events = [], ack_ids = [],
        error_log = []\<rparr>
     = \<lparr>proc = new_processor (SlidingWindow 60), processed_events = [], ack_ids = [],
        error_log = [(''1-0'', JSONDecodeError)]\<rparr>"
    using T[where m = "(''1-0'', Some (Malformed ''{oops''))" and H = id
        and stage = "''aggregation''" and sp = aggregation_stage and clock = 2000
        and sn = "''events''"
        and b = "\<lparr>proc = new_processor (SlidingWindow 60), processed_events = [], ack_ids = [],
        error_log = []\<rparr>", THEN conjunct1]
    by (simp add: parses_def)
  have b: "(''events'', ''1-0'') \<notin> set (acked (snd (run_pass id ''aggregation''
        aggregation_stage aggregates_encodable 2000 True None
        [(''events'', [(''1-0'', Some (Malformed ''{oops'')),
                       (''2-0'', Some (Decodes (sample_event ''click'' 1999000)))])]
        (new_processor (SlidingWindow 60), \<lparr>output_stream = [], acked = []\<rparr>))))"
    using T[where s = "''events''" and mid = "''1-0''" and H = id
        and stage = "''aggregation''" and sp = aggregation_stage
        and enr_ok = aggregates_encodable and clock = 2000
        and ok = True and xf = None
        and streams = "[(''events'', [(''1-0'', Some (Malformed ''{oops'')),
                       (''2-0'', Some (Decodes (sample_event ''click'' 1999000)))])]"
        and p = "new_processor (SlidingWindow 60)"
        and br = "\<lparr>output_stream = [], acked = []\<rparr>", THEN conjunct2, THEN conjunct2]
    by (auto simp: parses_def)
  from a b show ?thesis by blast
qed

subsection \<open>Anomaly scorer\<close>

lemma max_default_Max: "xs \<noteq> [] \<Longrightarrow> max_default xs = Max (set xs)"
proof (cases xs)
  case Nil
  assume "xs \<noteq> []"
  with Nil show ?thesis by simp
next
  case (Cons y ys)
  have "Max (set (y # ys)) = fold max ys y" by (rule Max.set_eq_fold)
  with Cons show ?thesis by (simp add: max_default_def)
qed

lemma max_default_largest:
  "max_default (map (\<lambda>na. score (snd na)) bs) = largest_subscore bs"
  by (cases "bs = []") (simp_all add: largest_subscore_def max_default_Max, simp add: max_default_def)

lemma max_default_le:
  assumes "\<forall>x \<in> set xs. x \<le> 1"
  shows "max_default xs \<le> 1"
proof (cases "xs = []")
  case True
  then show ?thesis by (simp add: max_default_def)
next
  case False
  then have "Max (set xs) \<in> set xs" by (intro Max_in) simp_all
  with assms False show ?thesis by (simp add: max_default_Max)
qed

lemma ml_score_range:
  "0 \<le> get_ml_anomaly_score d decision \<and> get_ml_anomaly_score d decision \<le> 1"
  by (simp add: get_ml_anomaly_score_def split: option.splits)

lemma ml_score_untrained: "\<not> is_trained d \<Longrightarrow> get_ml_anomaly_score d decision = 0"
  by (simp add: get_ml_anomaly_score_def)

lemma update_user_baseline_trained [simp]:
  "is_trained (update_user_baseline d now e) = is_trained d"
  by (simp add: update_user_baseline_def Let_def split: option.splits)

lemma purchase_checks_le: "b \<in> set (purchase_checks d e) \<Longrightarrow> score (snd b) \<le> 1"
  unfolding purchase_checks_def Let_def
  apply (cases "event_type e = Some ''purchase''")
   apply (cases "truthy_amount e")
    apply simp
   apply (cases "case user_id e of None \<Rightarrow> None | Some u \<Rightarrow> user_baselines d u")
    apply (auto split: if_splits)
  done

lemma behavioral_scores_le:
  assumes "detect_behavioral_anomalies d now e = Inr bs"
  shows "\<forall>x \<in> set (map (\<lambda>na. score (snd na)) bs). x \<le> 1"
proof -
  from assms obtain ts where ts: "time_check now e = Inr ts"
    and bs: "bs = rapid_fire_check d now e @ purchase_checks d e @ ts"
    by (auto simp: detect_behavioral_anomalies_def split: sum.splits)
  have r: "\<forall>b \<in> set (rapid_fire_check d now e). score (snd b) \<le> 1"
    by (auto simp: rapid_fire_check_def Let_def split: option.splits)
  have p: "\<forall>b \<in> set (purchase_checks d e). score (snd b) \<le> 1"
    by (blast intro: purchase_checks_le)
  have t: "time_check now e = Inr ts \<Longrightarrow> \<forall>b \<in> set ts. score (snd b) \<le> 1" for ts
    by (auto simp: time_check_def split: sum.splits if_splits)
  from r p t[OF ts] show ?thesis
    unfolding bs by auto
qed

lemma analyze_event_result:
  assumes "analyze_event d now decision e = (Inr a, d')"
  shows "\<exists>bs. detect_behavioral_anomalies (prepared d now e) now e = Inr bs \<and>
           a = \<lparr>a_event_id = event_id e, a_user_id = user_id e, a_timestamp = timestamp e,
                ml_anomaly_score = get_ml_anomaly_score d decision,
                ml_numpy = ml_score_numpy d decision,
                behavioral_anomalies = bs,
                combined_anomaly_score =
                  max (get_ml_anomaly_score d decision) (largest_subscore bs),
                is_anomaly = (max (get_ml_anomaly_score d decision) (largest_subscore bs) > 7 / 10),
                a_model_version = model_version d\<rparr> \<and>
           d' = (if max (get_ml_anomaly_score d decision) (largest_subscore bs) > 1 / 2
                 then (prepared d now e)
                        \<lparr>anomaly_buffer := deque_append 1000 (anomaly_buffer (prepared d now e)) a\<rparr>
                 else prepared d now e)"
proof -
  have ml: "get_ml_anomaly_score (prepared d now e) decision = get_ml_anomaly_score d decision"
    by (simp add: get_ml_anomaly_score_def prepared_def)
  have mn: "ml_score_numpy (prepared d now e) decision = ml_score_numpy d decision"
    by (simp add: ml_score_numpy_def prepared_def)
  have mv: "model_version (prepared d now e) = model_version d"
    by (simp add: prepared_def update_user_baseline_def Let_def split: option.splits)
  from assms show ?thesis
    unfolding analyze_event_def Let_def prepared_def[symmetric]
    by (auto simp: ml mn mv max_default_largest split: sum.splits if_splits)
qed

lemma analyze_event_total:
  assumes "representable (event_seconds now e)" "causality_chain e \<noteq> Some None"
  shows "\<exists>a d'. analyze_event d now decision e = (Inr a, d')"
proof -
  from assms have f: "extract_features now e = Inr ()"
    by (simp add: extract_features_def hour_of_def)
  from assms(1) obtain bs where
    "detect_behavioral_anomalies (prepared d now e) now e = Inr bs"
    by (simp add: detect_behavioral_anomalies_def time_check_def hour_of_def)
  then show ?thesis
    unfolding analyze_event_def Let_def prepared_def[symmetric] f
    by simp
qed

lemma prepared_trained [simp]: "is_trained (prepared d now e) = is_trained d"
  by (simp add: prepared_def)

text \<open>
  The scores of the events that \<open>analyze_event\<close> does score: the combined score is the
  maximum of
  the learned score and the largest sub-score of the triggered behavioural checks, it
  lies between 0 and 1, and \<open>is_anomaly\<close> holds exactly when it is strictly above 0.7.
  The learned score is the one of \<open>get_ml_anomaly_score\<close>, which is 0 as long as no
  model has been trained; a new detector is untrained and analysing does not train
  it. Every event whose time is representable and whose causality chain is not null
  is scored.
\<close>

theorem combined_score_is_max_in_unit_interval:
  "(analyze_event d now decision e = (Inr a, d') \<longrightarrow>
      combined_anomaly_score a
        = max (ml_anomaly_score a) (largest_subscore (behavioral_anomalies a)) \<and>
      0 \<le> combined_anomaly_score a \<and> combined_anomaly_score a \<le> 1 \<and>
      is_anomaly a = (combined_anomaly_score a > 7 / 10) \<and>
      ml_anomaly_score a = get_ml_anomaly_score d decision \<and>
      detect_behavioral_anomalies (prepared d now e) now e = Inr (behavioral_anomalies a) \<and>
      (\<not> is_trained d \<longrightarrow> ml_anomaly_score a = 0) \<and>
      is_trained d' = is_trained d) \<and>
   (representable (event_seconds now e) \<and> causality_chain e \<noteq> Some None \<longrightarrow>
      (\<exists>a d'. analyze_event d now decision e = (Inr a, d'))) \<and>
   \<not> is_trained AdvancedAnomalyDetector"
proof -
  have A: "combined_anomaly_score a
        = max (ml_anomaly_score a) (largest_subscore (behavioral_anomalies a)) \<and>
      0 \<le> combined_anomaly_score a \<and> combined_anomaly_score a \<le> 1 \<and>
      is_anomaly a = (combined_anomaly_score a > 7 / 10) \<and>
      ml_anomaly_score a = get_ml_anomaly_score d decision \<and>
      detect_behavioral_anomalies (prepared d now e) now e = Inr (behavioral_anomalies a) \<and>
      (\<not> is_trained d \<longrightarrow> ml_anomaly_score a = 0) \<and>
      is_trained d' = is_trained d"
    if res: "analyze_event d now decision e = (Inr a, d')"
  proof -
    from analyze_event_result[OF res] obtain bs where
      bs: "detect_behavioral_anomalies (prepared d now e) now e = Inr bs"
      and a: "a = \<lparr>a_event_id = event_id e, a_user_id = user_id e, a_timestamp = timestamp e,
                ml_anomaly_score = get_ml_anomaly_score d decision,
                ml_numpy = ml_score_numpy d decision,
                behavioral_anomalies = bs,
                combined_anomaly_score =
                  max (get_ml_anomaly_score d decision) (largest_subscore bs),
                is_anomaly = (max (get_ml_anomaly_score d decision) (largest_subscore bs) > 7 / 10),
                a_model_version = model_version d\<rparr>"
      and d': "d' = (if max (get_ml_anomaly_score d decision) (largest_subscore bs) > 1 / 2
                 then (prepared d now e)
                        \<lparr>anomaly_buffer := deque_append 1000 (anomaly_buffer (prepared d now e)) a\<rparr>
                 else prepared d now e)"
      by blast
    have le: "largest_subscore bs \<le> 1"
      using max_default_le[OF behavioral_scores_le[OF bs]] by (simp add: max_default_largest)
    note ml = ml_score_range[of d decision]
    have c: "0 \<le> max (get_ml_anomaly_score d decision) (largest_subscore bs)"
      "max (get_ml_anomaly_score d decision) (largest_subscore bs) \<le> 1"
      using ml le by auto
    have t: "is_trained d' = is_trained d" by (simp add: d')
    from a bs c t ml_score_untrained[of d decision] show ?thesis by simp
  qed
  have N: "\<not> is_trained AdvancedAnomalyDetector"
    by (simp add: AdvancedAnomalyDetector_def)
  from A analyze_event_total[of now e d decision] N show ?thesis
    by blast
qed

lemma sample_analysis:
  "analyze_event AdvancedAnomalyDetector 50000 None (sample_purchase amt) =
     (let bs = (if amt \<noteq> 0 \<and> amt > 500
                then [(''high_value_purchase'',
                       \<lparr>score = min 1 (amt / 1000), details = [(''amount'', amt)],
                        has_numpy = False\<rparr>)]
                else []);
          c = max 0 (max_default (map (\<lambda>na. score (snd na)) bs));
          a = \<lparr>a_event_id = Some ''e1'', a_user_id = None, a_timestamp = Some 43200000,
               ml_anomaly_score = 0, ml_numpy = False, behavioral_anomalies = bs,
               combined_anomaly_score = c, is_anomaly = (c > 7 / 10), a_model_version = 1\<rparr>
      in (Inr a,
          if c > 1 / 2
          then AdvancedAnomalyDetector\<lparr>feature_buffer_len := 1, anomaly_buffer := [a]\<rparr>
          else AdvancedAnomalyDetector\<lparr>feature_buffer_len := 1\<rparr>))"
  by (simp add: analyze_event_def Let_def sample_purchase_def AdvancedAnomalyDetector_def
      update_user_baseline_def truthy_def extract_features_def hour_of_def representable_def
      event_seconds_def get_ml_anomaly_score_def ml_score_numpy_def
      detect_behavioral_anomalies_def
      time_check_def rapid_fire_check_def purchase_checks_def truthy_amount_def
      deque_append_def)

theorem combined_score_is_max_in_unit_interval_witness:
  "map_sum id combined_anomaly_score
       (fst (analyze_event AdvancedAnomalyDetector 50000 None (sample_purchase 800)))
     = Inr (4 / 5) \<and>
   map_sum id is_anomaly
       (fst (analyze_event AdvancedAnomalyDetector 50000 None (sample_purchase 800)))
     = Inr True \<and>
   map_sum id ml_anomaly_score
       (fst (analyze_event AdvancedAnomalyDetector 50000 None (sample_purchase 800)))
     = Inr 0"
proof -
  note T = combined_score_is_max_in_unit_interval
  let ?e = "sample_purchase 800"
  have "representable (event_seconds 50000 ?e) \<and> causality_chain ?e \<noteq> Some None"
    by (simp add: representable_def event_seconds_def sample_purchase_def)
  with T[where d = AdvancedAnomalyDetector and now = 50000 and decision = None and e = ?e,
      THEN conjunct2, THEN conjunct1]
  obtain a d' where res: "analyze_event AdvancedAnomalyDetector 50000 None ?e = (Inr a, d')"
    by blast
  from T[where d = AdvancedAnomalyDetector and now = 50000 and decision = None and e = ?e
      and a = a and d' = d', THEN conjunct1] res
  have p: "is_anomaly a = (combined_anomaly_score a > 7 / 10)"
    "\<not> is_trained AdvancedAnomalyDetector \<longrightarrow> ml_anomaly_score a = 0"
    by blast+
  from T[where d = AdvancedAnomalyDetector] have "\<not> is_trained AdvancedAnomalyDetector"
    by blast
  with p have ml: "ml_anomaly_score a = 0" by blast
  from res have c: "combined_anomaly_score a = 4 / 5"
    by (auto simp: sample_analysis Let_def max_default_def)
  with p(1) have "is_anomaly a" by simp
  with c ml res show ?thesis by simp
qed

text \<open>
  C9 fails on the code. The claim gives every event a combined score in the unit
  interval. \<^verbatim>\<open>extract_features\<close> reads the chain with
  \<^verbatim>\<open>event.get('causality_chain', [])\<close>, which defaults an absent key but not a \<^verbatim>\<open>null\<close>, and
  then takes its \<^verbatim>\<open>len\<close>. The producer leaves \<^verbatim>\<open>causality_chain\<close> at \<^verbatim>\<open>None\<close> on every page
  view, so for such an event \<open>analyze_event\<close> raises \<^verbatim>\<open>TypeError\<close> and yields no score;
  the service logs the error and does not acknowledge the message.
\<close>

theorem null_causality_chain_gets_no_score:
  "fst (analyze_event AdvancedAnomalyDetector 50000 None
         ((sample_event ''page_view'' 43200000)\<lparr>causality_chain := Some None\<rparr>))
     = Inl TypeError \<and>
   svc_log (detector_handle_message 50000 None None True ''processed_events''
       (''1-0'', Some (Processed (Some
          ((sample_event ''page_view'' 43200000)\<lparr>causality_chain := Some None\<rparr>))))
       new_service)
     = [(''1-0'', TypeError)] \<and>
   svc_acked (detector_handle_message 50000 None None True ''processed_events''
       (''1-0'', Some (Processed (Some
          ((sample_event ''page_view'' 43200000)\<lparr>causality_chain := Some None\<rparr>))))
       new_service)
     = []"
proof -
  let ?pv = "(sample_event ''page_view'' 43200000)\<lparr>causality_chain := Some None\<rparr>"
  have f: "extract_features 50000 ?pv = Inl TypeError"
    by (simp add: extract_features_def hour_of_def representable_def event_seconds_def
        sample_event_def)
  have a: "analyze_event d 50000 None ?pv = (Inl TypeError, update_user_baseline d 50000 ?pv)"
    for d
    unfolding analyze_event_def Let_def f by simp
  show ?thesis
    by (simp add: a detector_handle_message_def original_event_of_def new_service_def)
qed

subsection \<open>Anomaly records in the store\<close>

text \<open>
  C1 does not hold as stated. An event with a combined score between 0.5 and 0.7 (a
  purchase of 600: the
  high-value check gives 0.6) is analysed and acknowledged, but nothing is written to
  the store.
\<close>

theorem score_above_half_not_persisted_counterexample:
  "map_sum id combined_anomaly_score
       (fst (analyze_event AdvancedAnomalyDetector 50000 None (sample_purchase 600)))
     = Inr (3 / 5) \<and>
   (1 / 2 :: rat) < 3 / 5 \<and>
   the_store (detector_handle_message 50000 None None True ''processed_events''
       (''1-0'', Some (Processed (Some (sample_purchase 600)))) new_service) = empty_store \<and>
   svc_acked (detector_handle_message 50000 None None True ''processed_events''
       (''1-0'', Some (Processed (Some (sample_purchase 600)))) new_service)
     = [(''processed_events'', ''1-0'')]"
  by (simp add: sample_analysis detector_handle_message_def original_event_of_def
      new_service_def Let_def max_default_def)

lemma prepared_anomaly_buffer [simp]:
  "anomaly_buffer (prepared d now e) = anomaly_buffer d"
  by (simp add: prepared_def update_user_baseline_def Let_def split: option.splits)

lemma deque_append_last:
  "0 < n \<Longrightarrow> deque_append n xs x \<noteq> [] \<and> last (deque_append n xs x) = x"
  by (simp add: deque_append_def)

lemma store_anomaly_ok:
  assumes "json_encodable a" "a_timestamp a = Some ts" "fails \<noteq> Some Hset"
    "fails \<noteq> Some Expire"
  shows "hashes (fst (store_anomaly st fails a)) (anomaly_key a)
           = Some \<lparr>st_data = a, st_timestamp = ts, st_score = combined_anomaly_score a\<rparr> \<and>
         expiry (fst (store_anomaly st fails a)) (anomaly_key a) = Some 86400"
  using assms by (simp add: store_anomaly_def Let_def split: option.splits)

text \<open>A record that holds a numpy value is never written, whatever the store does.\<close>

lemma store_anomaly_numpy:
  assumes "ml_numpy a \<or> (\<exists>na \<in> set (behavioral_anomalies a). has_numpy (snd na))"
  shows "store_anomaly st fails a = (st, Some TypeError)"
  using assms by (auto simp: store_anomaly_def json_encodable_def list_all_iff)

lemma handle_message_store:
  assumes "original_event_of (snd m) = Inr e"
    "analyze_event (the_detector sv) now decision e = (Inr a, d')"
  shows "the_store (detector_handle_message now decision fails xack_ok sn m sv)
           = (if is_anomaly a then fst (store_anomaly (the_store sv) fails a) else the_store sv)"
    and "the_detector (detector_handle_message now decision fails xack_ok sn m sv) = d'"
  using assms
  by (auto simp: detector_handle_message_def Let_def split: prod.splits option.splits)

text \<open>
  C1, as the code has it. The service persists the analysis of a message only when
  \<open>is_anomaly\<close> holds, that is when the combined score is above 0.7: then, if the
  record can be encoded (it holds no numpy value and has a timestamp) and the store
  accepts the calls \<^verbatim>\<open>hset\<close> and \<^verbatim>\<open>expire\<close>, the record is under \<open>anomaly:<event_id>\<close> with
  an expiry of 86400 seconds. With a score of at most 0.7 the store is left as it is. A
  score above 0.5 puts the result into the detector's in-memory \<open>anomaly_buffer\<close>
  only.
\<close>

theorem anomaly_persisted_above_07:
  "original_event_of (snd m) = Inr e \<and>
   analyze_event (the_detector sv) now decision e = (Inr a, d') \<longrightarrow>
     the_detector (detector_handle_message now decision fails xack_ok sn m sv) = d' \<and>
     (combined_anomaly_score a > 7 / 10 \<and> json_encodable a \<and> a_timestamp a = Some ts \<and>
      fails \<noteq> Some Hset \<and> fails \<noteq> Some Expire \<longrightarrow>
        hashes (the_store (detector_handle_message now decision fails xack_ok sn m sv))
            (anomaly_key a)
          = Some \<lparr>st_data = a, st_timestamp = ts, st_score = combined_anomaly_score a\<rparr> \<and>
        expiry (the_store (detector_handle_message now decision fails xack_ok sn m sv))
            (anomaly_key a) = Some 86400) \<and>
     (combined_anomaly_score a \<le> 7 / 10 \<longrightarrow>
        the_store (detector_handle_message now decision fails xack_ok sn m sv) = the_store sv) \<and>
     (combined_anomaly_score a > 1 / 2 \<longrightarrow>
        anomaly_buffer d' \<noteq> [] \<and> last (anomaly_buffer d') = a) \<and>
     (combined_anomaly_score a \<le> 1 / 2 \<longrightarrow>
        anomaly_buffer d' = anomaly_buffer (the_detector sv))"
proof (intro impI, elim conjE)
  assume ev: "original_event_of (snd m) = Inr e"
    and res: "analyze_event (the_detector sv) now decision e = (Inr a, d')"
  let ?sv' = "detector_handle_message now decision fails xack_ok sn m sv"
  let ?d = "the_detector sv"
  from analyze_event_result[OF res] obtain bs where
    a: "a = \<lparr>a_event_id = event_id e, a_user_id = user_id e, a_timestamp = timestamp e,
                ml_anomaly_score = get_ml_anomaly_score ?d decision,
                ml_numpy = ml_score_numpy ?d decision,
                behavioral_anomalies = bs,
                combined_anomaly_score =
                  max (get_ml_anomaly_score ?d decision) (largest_subscore bs),
                is_anomaly = (max (get_ml_anomaly_score ?d decision) (largest_subscore bs) > 7 / 10),
                a_model_version = model_version ?d\<rparr>"
    and d': "d' = (if max (get_ml_anomaly_score ?d decision) (largest_subscore bs) > 1 / 2
                 then (prepared ?d now e)
                        \<lparr>anomaly_buffer := deque_append 1000 (anomaly_buffer (prepared ?d now e)) a\<rparr>
                 else prepared ?d now e)"
    by blast
  from a have ia: "is_anomaly a = (combined_anomaly_score a > 7 / 10)" by simp
  from a have cs: "combined_anomaly_score a
                     = max (get_ml_anomaly_score ?d decision) (largest_subscore bs)" by simp
  note st = handle_message_store[OF ev res, of fails xack_ok sn]
  have 1: "the_detector ?sv' = d'" by (rule st(2))
  have 2: "hashes (the_store ?sv') (anomaly_key a)
          = Some \<lparr>st_data = a, st_timestamp = ts, st_score = combined_anomaly_score a\<rparr> \<and>
        expiry (the_store ?sv') (anomaly_key a) = Some 86400"
    if "combined_anomaly_score a > 7 / 10" "json_encodable a" "a_timestamp a = Some ts"
      "fails \<noteq> Some Hset" "fails \<noteq> Some Expire"
    using that(1) store_anomaly_ok[OF that(2-5), of "the_store sv"]
    unfolding st(1) ia by simp
  have 3: "the_store ?sv' = the_store sv" if "combined_anomaly_score a \<le> 7 / 10"
    using that unfolding st(1) ia by simp
  have 4: "anomaly_buffer d' \<noteq> [] \<and> last (anomaly_buffer d') = a"
    if "combined_anomaly_score a > 1 / 2"
    using that deque_append_last[of 1000 "anomaly_buffer ?d" a]
    unfolding cs d' by simp
  have 5: "anomaly_buffer d' = anomaly_buffer ?d" if "combined_anomaly_score a \<le> 1 / 2"
    using that unfolding cs d' by simp
  from 1 2 3 4 5
  show "the_detector ?sv' = d' \<and>
     (combined_anomaly_score a > 7 / 10 \<and> json_encodable a \<and> a_timestamp a = Some ts \<and>
      fails \<noteq> Some Hset \<and> fails \<noteq> Some Expire \<longrightarrow>
        hashes (the_store ?sv') (anomaly_key a)
          = Some \<lparr>st_data = a, st_timestamp = ts, st_score = combined_anomaly_score a\<rparr> \<and>
        expiry (the_store ?sv') (anomaly_key a) = Some 86400) \<and>
     (combined_anomaly_score a \<le> 7 / 10 \<longrightarrow> the_store ?sv' = the_store sv) \<and>
     (combined_anomaly_score a > 1 / 2 \<longrightarrow>
        anomaly_buffer d' \<noteq> [] \<and> last (anomaly_buffer d') = a) \<and>
     (combined_anomaly_score a \<le> 1 / 2 \<longrightarrow>
        anomaly_buffer d' = anomaly_buffer (the_detector sv))"
    by blast
qed

theorem anomaly_persisted_above_07_witness:
  "expiry (the_store (detector_handle_message 50000 None None True ''processed_events''
       (''1-0'', Some (Processed (Some (sample_purchase 800)))) new_service)) ''anomaly:e1''
     = Some 86400 \<and>
   map_option st_score
     (hashes (the_store (detector_handle_message 50000 None None True ''processed_events''
       (''1-0'', Some (Processed (Some (sample_purchase 800)))) new_service)) ''anomaly:e1'')
     = Some (4 / 5)"
proof -
  note T = anomaly_persisted_above_07
  let ?e = "sample_purchase 800"
  let ?m = "(''1-0'', Some (Processed (Some ?e)))"
  obtain a d' where res: "analyze_event (the_detector new_service) 50000 None ?e = (Inr a, d')"
    and c: "combined_anomaly_score a = 4 / 5" and ts: "a_timestamp a = Some 43200000"
    and k: "anomaly_key a = ''anomaly:e1''" and j: "json_encodable a"
    by (simp add: new_service_def sample_analysis Let_def max_default_def anomaly_key_def
        str_opt_def json_encodable_def)
  have ev: "original_event_of (snd ?m) = Inr ?e" by (simp add: original_event_of_def)
  from T[where m = ?m and e = ?e and sv = new_service and now = 50000 and decision = None
      and a = a and d' = d' and fails = None and ts = 43200000 and xack_ok = True
      and sn = "''processed_events''"] ev res c ts j
  show ?thesis by (simp add: k)
qed

end
